theory Spec2Isabelle
  imports Main "HOL-Library.AList"
begin

section \<open>Calibration updater: the data model\<close>

text \<open>
  The script \<^verbatim>\<open>src/script.py\<close> reads a JSON configuration and a CSV calibration
  file, overwrites calibration fields inside the regions of the configuration and writes
  the result. The theory embeds \<^verbatim>\<open>load_calibration_data\<close> and
  \<^verbatim>\<open>update_config_with_calibration\<close>.

  A JSON document, as \<^verbatim>\<open>json.load\<close> builds it: dictionaries keep the order of their
  keys (the merge iterates over them), so they are association lists. Python floats are
  kept abstract: the type parameter \<open>'n\<close> stands for them, and the builtin
  \<^verbatim>\<open>float\<close> is a parameter of the loader.
\<close>

datatype 'n json =
    JNull
  | JBool bool
  | JInt int
  | JFloat 'n
  | JStr string
  | JArr "'n json list"
  | JObj "(string \<times> 'n json) list"

text \<open>
  The exceptions the two functions can raise on a dynamically typed document.
  \<^verbatim>\<open>ValueError\<close> is the serialiser's on a circular reference and
  \<^verbatim>\<open>RuntimeError\<close> the dictionary iterator's on a change of size; \<^verbatim>\<open>SystemError\<close>
  stands for a reference to no object, which no Python state holds.
\<close>

datatype exn = AttributeError | TypeError | KeyError | ValueError | RuntimeError | SystemError

text \<open>
  What the script prints: \<open>Updated\<close> goes to standard output, the others to standard
  error. \<open>Updated region field old new\<close> is the line
  \<^verbatim>\<open>Updated {region_name}.{field}: {old_value} -> {new_value}\<close>.
\<close>

datatype ('v, 'n) message =
    Updated string string 'v 'n
  | WarnNoRegions
  | WarnFieldNotFound string string
  | ErrReadingCalibration

text \<open>The old value of a change record is a JSON value when the document is one.\<close>

type_synonym 'n event = "('n json, 'n) message"

text \<open>The calibration table \<^verbatim>\<open>Dict[str, Dict[str, float]]\<close>: field, then region.\<close>

type_synonym 'n table = "string \<rightharpoonup> (string \<rightharpoonup> 'n)"

section \<open>Python's operators on a JSON value\<close>

fun starts_with :: "string \<Rightarrow> string \<Rightarrow> bool" where
  "starts_with [] s = True"
| "starts_with (c # cs) [] = False"
| "starts_with (c # cs) (d # ds) = (c = d \<and> starts_with cs ds)"

text \<open>\<^verbatim>\<open>sub in s\<close> on two strings: \<open>sub\<close> occurs in \<open>s\<close> as a contiguous run.\<close>

fun str_contains :: "string \<Rightarrow> string \<Rightarrow> bool" where
  "str_contains sub [] = (sub = [])"
| "str_contains sub (d # ds) = (starts_with sub (d # ds) \<or> str_contains sub ds)"

text \<open>
  \<^verbatim>\<open>key in obj\<close>: a key test on a dictionary, an element test on a list, a substring
  test on a string, and a \<^verbatim>\<open>TypeError\<close> on a number, a boolean or \<^verbatim>\<open>None\<close>.
\<close>

fun py_contains :: "string \<Rightarrow> 'n json \<Rightarrow> exn + bool" where
  "py_contains key (JObj kvs) = Inr (key \<in> fst ` set kvs)"
| "py_contains key (JArr xs) = Inr (JStr key \<in> set xs)"
| "py_contains key (JStr s) = Inr (str_contains key s)"
| "py_contains key _ = Inl TypeError"

text \<open>
  \<^verbatim>\<open>obj[key]\<close> with a string key: only a dictionary answers; a list and a string
  want an integer index, the scalars are not subscriptable.
\<close>

fun py_getitem :: "'n json \<Rightarrow> string \<Rightarrow> exn + 'n json" where
  "py_getitem (JObj kvs) key = (case map_of kvs key of None \<Rightarrow> Inl KeyError | Some v \<Rightarrow> Inr v)"
| "py_getitem _ key = Inl TypeError"

text \<open>
  \<^verbatim>\<open>obj[key] = value\<close>: an existing key keeps its place in the dictionary, a new
  one is appended.
\<close>

fun py_setitem :: "'n json \<Rightarrow> string \<Rightarrow> 'n json \<Rightarrow> exn + 'n json" where
  "py_setitem (JObj kvs) key v = Inr (JObj (AList.update key v kvs))"
| "py_setitem _ key v = Inl TypeError"

text \<open>\<^verbatim>\<open>obj.items()\<close> exists on dictionaries only.\<close>

fun py_items :: "'n json \<Rightarrow> exn + (string \<times> 'n json) list" where
  "py_items (JObj kvs) = Inr kvs"
| "py_items _ = Inl AttributeError"

section \<open>The merge\<close>

text \<open>
  \<^verbatim>\<open>json.loads(json.dumps(config))\<close> on a document that came from JSON: the
  serialiser walks the tree and the parser rebuilds it node by node.
\<close>

fun deep_copy :: "'n json \<Rightarrow> 'n json" where
  "deep_copy (JArr xs) = JArr (map deep_copy xs)"
| "deep_copy (JObj kvs) = JObj (map (\<lambda>(k, v). (k, deep_copy v)) kvs)"
| "deep_copy v = v"

text \<open>
  Lines 137 to 147: the body of the inner loop, for one region and one field. It returns
  what it printed and either the exception raised or the region's configuration
  afterwards.
\<close>

definition update_field ::
  "'n table \<Rightarrow> string \<Rightarrow> 'n json \<Rightarrow> string \<Rightarrow> 'n event list \<times> (exn + 'n json)" where
  "update_field calibration_data region_name region_config field =
    (case calibration_data field of
       None \<Rightarrow> ([], Inr region_config)
     | Some by_region \<Rightarrow>
        (case by_region region_name of
           None \<Rightarrow> ([], Inr region_config)
         | Some new_value \<Rightarrow>
            (case py_contains field region_config of
               Inl e \<Rightarrow> ([], Inl e)
             | Inr False \<Rightarrow> ([WarnFieldNotFound field region_name], Inr region_config)
             | Inr True \<Rightarrow>
                (case py_getitem region_config field of
                   Inl e \<Rightarrow> ([], Inl e)
                 | Inr old_value \<Rightarrow>
                    (case py_setitem region_config field (JFloat new_value) of
                       Inl e \<Rightarrow> ([], Inl e)
                     | Inr region_config' \<Rightarrow>
                        ([Updated region_name field old_value new_value],
                         Inr region_config'))))))"

text \<open>Line 135: the loop over the selected fields, in their order, for one region.\<close>

fun update_region ::
  "'n table \<Rightarrow> string \<Rightarrow> 'n json \<Rightarrow> string list \<Rightarrow> 'n event list \<times> (exn + 'n json)" where
  "update_region calibration_data region_name region_config [] = ([], Inr region_config)"
| "update_region calibration_data region_name region_config (field # fields) =
    (case update_field calibration_data region_name region_config field of
       (out, Inl e) \<Rightarrow> (out, Inl e)
     | (out, Inr region_config') \<Rightarrow>
        (case update_region calibration_data region_name region_config' fields of
           (out', r) \<Rightarrow> (out @ out', r)))"

text \<open>
  Line 133: the loop over the entries of \<^verbatim>\<open>updated_config['regions']\<close>, in the
  dictionary's order. The entries are rewritten in place, so the result lists them in the
  same order.
\<close>

fun update_regions ::
  "'n table \<Rightarrow> string list \<Rightarrow> (string \<times> 'n json) list
    \<Rightarrow> 'n event list \<times> (exn + (string \<times> 'n json) list)" where
  "update_regions calibration_data calibration_fields [] = ([], Inr [])"
| "update_regions calibration_data calibration_fields ((region_name, region_config) # rest) =
    (case update_region calibration_data region_name region_config calibration_fields of
       (out, Inl e) \<Rightarrow> (out, Inl e)
     | (out, Inr region_config') \<Rightarrow>
        (case update_regions calibration_data calibration_fields rest of
           (out', Inl e) \<Rightarrow> (out @ out', Inl e)
         | (out', Inr rest') \<Rightarrow> (out @ out', Inr ((region_name, region_config') # rest'))))"

text \<open>
  The region configurations are mutated through the copy, so the copy returned at line 149
  holds the rewritten entries under its key \<^verbatim>\<open>regions\<close>.
\<close>

fun with_regions :: "'n json \<Rightarrow> (string \<times> 'n json) list \<Rightarrow> 'n json" where
  "with_regions (JObj kvs) regions = JObj (AList.update ''regions'' (JObj regions) kvs)"
| "with_regions v regions = v"

definition update_config_with_calibration ::
  "'n json \<Rightarrow> 'n table \<Rightarrow> string list \<Rightarrow> 'n event list \<times> (exn + 'n json)" where
  "update_config_with_calibration config calibration_data calibration_fields =
    (let updated_config = deep_copy config in
     case py_contains ''regions'' updated_config of
       Inl e \<Rightarrow> ([], Inl e)
     | Inr False \<Rightarrow> ([WarnNoRegions], Inr updated_config)
     | Inr True \<Rightarrow>
        (case py_getitem updated_config ''regions'' of
           Inl e \<Rightarrow> ([], Inl e)
         | Inr regions \<Rightarrow>
            (case py_items regions of
               Inl e \<Rightarrow> ([], Inl e)
             | Inr entries \<Rightarrow>
                (case update_regions calibration_data calibration_fields entries of
                   (out, Inl e) \<Rightarrow> (out, Inl e)
                 | (out, Inr entries') \<Rightarrow> (out, Inr (with_regions updated_config entries'))))))"

section \<open>The calibration table loader\<close>

text \<open>
  \<^verbatim>\<open>csv.DictReader\<close> turns each row of the file into a dictionary keyed by the
  header row. A row longer than the header keeps its extra cells as a list under the key
  \<^verbatim>\<open>None\<close>; a shorter row has \<^verbatim>\<open>None\<close> for the columns it lacks. So a key is a
  \<open>string option\<close> and a value is one of three things.
\<close>

datatype cell = CNone | CStr string | CRest "string list"

type_synonym row_dict = "(string option \<times> cell) list"

text \<open>
  \<^verbatim>\<open>DictReader.__next__\<close>: \<^verbatim>\<open>d = dict(zip(self.fieldnames, row))\<close>, then the
  rest key or the rest values. A header name that occurs twice keeps its first place and
  its last value.
\<close>

definition dict_reader_row :: "string list \<Rightarrow> string list \<Rightarrow> row_dict" where
  "dict_reader_row fieldnames row =
    (let d = fold (\<lambda>(k, v). AList.update (Some k) (CStr v)) (zip fieldnames row) [];
         lf = length fieldnames;
         lr = length row
     in if lf < lr then AList.update None (CRest (drop lf row)) d
        else if lf > lr then fold (\<lambda>key. AList.update (Some key) CNone) (drop lr fieldnames) d
        else d)"

text \<open>
  The rows the reader yields from the rows of the file: the first row is the header, and
  blank rows after it are skipped.
\<close>

fun dict_reader :: "string list list \<Rightarrow> row_dict list" where
  "dict_reader [] = []"
| "dict_reader (fieldnames # rows) = map (dict_reader_row fieldnames) (filter (\<lambda>row. row \<noteq> []) rows)"

text \<open>
  \<^verbatim>\<open>str.strip()\<close> removes white space at both ends; these are the white space
  characters among the first 256 code points.
\<close>

definition py_isspace :: "char \<Rightarrow> bool" where
  "py_isspace c = ((of_char c :: nat) \<in> {9, 10, 11, 12, 13, 28, 29, 30, 31, 32, 133, 160})"

definition strip :: "string \<Rightarrow> string" where
  "strip s = rev (dropWhile py_isspace (rev (dropWhile py_isspace s)))"

text \<open>
  Lines 96 to 105: one cell of a row. \<open>to_float\<close> is the builtin \<^verbatim>\<open>float\<close> on a
  string, \<open>None\<close> where it raises \<^verbatim>\<open>ValueError\<close>. The \<^verbatim>\<open>strip\<close> of a list
  would raise \<^verbatim>\<open>AttributeError\<close>, which \<^verbatim>\<open>except ValueError\<close> does not catch.
\<close>

fun record_cell ::
  "(string \<Rightarrow> 'n option) \<Rightarrow> (string \<rightharpoonup> 'n) \<Rightarrow> string option \<times> cell \<Rightarrow> exn + (string \<rightharpoonup> 'n)" where
  "record_cell to_float region_data (None, value) = Inr region_data"
| "record_cell to_float region_data (Some region, CNone) = Inr region_data"
| "record_cell to_float region_data (Some region, CStr value) =
    (if region \<noteq> [] \<and> value \<noteq> [] \<and> strip value \<noteq> [] then
       (case to_float value of
          Some x \<Rightarrow> Inr (region_data(region \<mapsto> x))
        | None \<Rightarrow> Inr region_data)
     else Inr region_data)"
| "record_cell to_float region_data (Some region, CRest value) =
    (if region \<noteq> [] \<and> value \<noteq> [] then Inl AttributeError else Inr region_data)"

text \<open>Line 96: the loop over \<^verbatim>\<open>row.items()\<close>.\<close>

fun record_cells ::
  "(string \<Rightarrow> 'n option) \<Rightarrow> (string \<rightharpoonup> 'n) \<Rightarrow> row_dict \<Rightarrow> exn + (string \<rightharpoonup> 'n)" where
  "record_cells to_float region_data [] = Inr region_data"
| "record_cells to_float region_data (item # items) =
    (case record_cell to_float region_data item of
       Inl e \<Rightarrow> Inl e
     | Inr region_data' \<Rightarrow> record_cells to_float region_data' items)"

text \<open>Line 92: \<^verbatim>\<open>row.get('', '')\<close>.\<close>

definition row_label :: "row_dict \<Rightarrow> cell" where
  "row_label row = (case map_of row (Some []) of None \<Rightarrow> CStr [] | Some v \<Rightarrow> v)"

text \<open>
  Lines 108 and 109: \<^verbatim>\<open>if row_label: calibration_data[row_label] = region_data\<close>.
  A non-empty list is true and cannot be a key.
\<close>

fun store_row :: "'n table \<Rightarrow> cell \<Rightarrow> (string \<rightharpoonup> 'n) \<Rightarrow> exn + 'n table" where
  "store_row calibration_data CNone region_data = Inr calibration_data"
| "store_row calibration_data (CStr label) region_data =
    (if label \<noteq> [] then Inr (calibration_data(label \<mapsto> region_data)) else Inr calibration_data)"
| "store_row calibration_data (CRest l) region_data =
    (if l \<noteq> [] then Inl TypeError else Inr calibration_data)"

text \<open>Lines 90 to 109: the body of the loop over the rows.\<close>

definition process_row ::
  "(string \<Rightarrow> 'n option) \<Rightarrow> 'n table \<Rightarrow> row_dict \<Rightarrow> exn + 'n table" where
  "process_row to_float calibration_data row =
    (case record_cells to_float Map.empty row of
       Inl e \<Rightarrow> Inl e
     | Inr region_data \<Rightarrow> store_row calibration_data (row_label row) region_data)"

fun process_rows ::
  "(string \<Rightarrow> 'n option) \<Rightarrow> 'n table \<Rightarrow> row_dict list \<Rightarrow> exn + 'n table" where
  "process_rows to_float calibration_data [] = Inr calibration_data"
| "process_rows to_float calibration_data (row # rows) =
    (case process_row to_float calibration_data row of
       Inl e \<Rightarrow> Inl e
     | Inr calibration_data' \<Rightarrow> process_rows to_float calibration_data' rows)"

text \<open>
  The file as the loader sees it: either it cannot be read (it cannot be opened, or the
  CSV reader raises while reading), or it yields its rows of cells.
\<close>

datatype csv_source = Unreadable | Rows "string list list"

text \<open>\<^verbatim>\<open>sys.exit(1)\<close>, with the exit code.\<close>

datatype exit = SysExit nat

text \<open>
  \<^verbatim>\<open>load_calibration_data\<close>: any exception is caught at line 111, reported and turned
  into exit code 1. It prints nothing else.
\<close>

definition load_calibration_data ::
  "(string \<Rightarrow> 'n option) \<Rightarrow> csv_source \<Rightarrow> 'n event list \<times> (exit + 'n table)" where
  "load_calibration_data to_float calibration_file =
    (case calibration_file of
       Unreadable \<Rightarrow> ([ErrReadingCalibration], Inl (SysExit 1))
     | Rows rows \<Rightarrow>
        (case process_rows to_float Map.empty (dict_reader rows) of
           Inl e \<Rightarrow> ([ErrReadingCalibration], Inl (SysExit 1))
         | Inr calibration_data \<Rightarrow> ([], Inr calibration_data)))"

text \<open>
  The closed examples below need one concrete \<open>to_float\<close>, with the integers standing
  for the floats. This one reads an unsigned decimal integer literal (where it agrees
  with \<^verbatim>\<open>float\<close>, as long as the number is exactly representable) and rejects every
  other string; the examples apply it to such literals and to \<^verbatim>\<open>N/A\<close> only
  (an empty or blank cell never reaches it).
\<close>

definition digit_val :: "char \<Rightarrow> int option" where
  "digit_val c = (let n = of_char c :: int in if 48 \<le> n \<and> n \<le> 57 then Some (n - 48) else None)"

fun digits_val :: "int \<Rightarrow> string \<Rightarrow> int option" where
  "digits_val acc [] = Some acc"
| "digits_val acc (c # cs) =
    (case digit_val c of None \<Rightarrow> None | Some d \<Rightarrow> digits_val (10 * acc + d) cs)"

definition decimal_float :: "string \<Rightarrow> int option" where
  "decimal_float s = (if s = [] then None else digits_val 0 s)"

section \<open>The merge as the specification words it\<close>

text \<open>
  Section 4.3 of the specification, step 3, for a region configuration that is a mapping:
  (a) no entry for the field in the table: skip; (b) no value for the region under the
  field: skip; (c) the field is not a key of the region's configuration: warn and skip;
  (d) overwrite the value and record the change.
\<close>

definition spec_step ::
  "'n table \<Rightarrow> string \<Rightarrow> (string \<times> 'n json) list \<Rightarrow> string
    \<Rightarrow> 'n event list \<times> (string \<times> 'n json) list" where
  "spec_step table region_name region_config field =
    (case table field of
       None \<Rightarrow> ([], region_config)
     | Some by_region \<Rightarrow>
        (case by_region region_name of
           None \<Rightarrow> ([], region_config)
         | Some new_value \<Rightarrow>
            (case map_of region_config field of
               None \<Rightarrow> ([WarnFieldNotFound field region_name], region_config)
             | Some old_value \<Rightarrow>
                ([Updated region_name field old_value new_value],
                 AList.update field (JFloat new_value) region_config))))"

text \<open>The steps of one region, for every field in selector order.\<close>

fun spec_fields ::
  "'n table \<Rightarrow> string \<Rightarrow> (string \<times> 'n json) list \<Rightarrow> string list
    \<Rightarrow> 'n event list \<times> (string \<times> 'n json) list" where
  "spec_fields table region_name region_config [] = ([], region_config)"
| "spec_fields table region_name region_config (field # selector) =
    (case spec_step table region_name region_config field of
       (out, region_config') \<Rightarrow>
         (case spec_fields table region_name region_config' selector of
            (out', region_config'') \<Rightarrow> (out @ out', region_config'')))"

text \<open>Every region entry, in the document's key order.\<close>

fun spec_regions ::
  "'n table \<Rightarrow> string list \<Rightarrow> (string \<times> (string \<times> 'n json) list) list
    \<Rightarrow> 'n event list \<times> (string \<times> (string \<times> 'n json) list) list" where
  "spec_regions table selector [] = ([], [])"
| "spec_regions table selector ((region_name, region_config) # regions) =
    (case spec_fields table region_name region_config selector of
       (out, region_config') \<Rightarrow>
         (case spec_regions table selector regions of
            (out', regions') \<Rightarrow> (out @ out', (region_name, region_config') # regions')))"

text \<open>A \<^verbatim>\<open>regions\<close> mapping whose entries are mappings, as a JSON value.\<close>

definition regions_value :: "(string \<times> (string \<times> 'n json) list) list \<Rightarrow> 'n json" where
  "regions_value regions =
    JObj (map (\<lambda>(region_name, region_config). (region_name, JObj region_config)) regions)"

section \<open>What the merge may change\<close>

text \<open>
  The relation between a document and the merged one, level by level. A field of a region
  either keeps its value, or it is a selected field and now holds the table's value for
  this field and region.
\<close>

definition field_frame ::
  "'n table \<Rightarrow> string list \<Rightarrow> string \<Rightarrow> string \<times> 'n json \<Rightarrow> string \<times> 'n json \<Rightarrow> bool" where
  "field_frame table selector region_name =
    (\<lambda>(k, v) (k', v'). k' = k \<and>
       (v' = v \<or>
        (k \<in> set selector \<and>
         (\<exists>by_region x. table k = Some by_region \<and> by_region region_name = Some x \<and>
            v' = JFloat x))))"

text \<open>
  A region entry keeps its name; a configuration that is a mapping keeps its keys in
  their order, with the fields related as above; any other value is unchanged.
\<close>

definition region_frame ::
  "'n table \<Rightarrow> string list \<Rightarrow> string \<times> 'n json \<Rightarrow> string \<times> 'n json \<Rightarrow> bool" where
  "region_frame table selector =
    (\<lambda>(region_name, region_config) (region_name', region_config'). region_name' = region_name \<and>
       (case region_config of
          JObj kvs \<Rightarrow>
            (\<exists>kvs'. region_config' = JObj kvs' \<and>
               list_all2 (field_frame table selector region_name) kvs kvs')
        | _ \<Rightarrow> region_config' = region_config))"

text \<open>
  A top-level entry keeps its key, and its value unless the key is \<^verbatim>\<open>regions\<close>;
  there the entries are related as above.
\<close>

definition top_frame ::
  "'n table \<Rightarrow> string list \<Rightarrow> string \<times> 'n json \<Rightarrow> string \<times> 'n json \<Rightarrow> bool" where
  "top_frame table selector =
    (\<lambda>(k, v) (k', v'). k' = k \<and>
       (v' = v \<or>
        (k = ''regions'' \<and>
         (\<exists>regions regions'. v = JObj regions \<and> v' = JObj regions' \<and>
            list_all2 (region_frame table selector) regions regions'))))"

definition same_except_selected :: "'n table \<Rightarrow> string list \<Rightarrow> 'n json \<Rightarrow> 'n json \<Rightarrow> bool" where
  "same_except_selected table selector config config' =
    (case config of
       JObj top_level \<Rightarrow>
         (\<exists>top_level'. config' = JObj top_level' \<and>
            list_all2 (top_frame table selector) top_level top_level')
     | _ \<Rightarrow> config' = config)"

section \<open>Change records that change nothing\<close>

text \<open>A change record whose old value is already the new value.\<close>

definition no_real_change :: "'n event \<Rightarrow> bool" where
  "no_real_change ev =
    (case ev of Updated region_name field old_value new_value \<Rightarrow> old_value = JFloat new_value
     | _ \<Rightarrow> True)"

section \<open>Notions used to state the loader's properties\<close>

text \<open>
  What holds of every dictionary the reader yields: its keys are distinct, and a list of
  extra cells occurs under the key \<^verbatim>\<open>None\<close> only.
\<close>

definition row_ok :: "row_dict \<Rightarrow> bool" where
  "row_ok row = (distinct (map fst row) \<and> (\<forall>(k, v) \<in> set row. \<forall>l. v = CRest l \<longrightarrow> k = None))"

text \<open>
  The numeric cells of a row as the specification describes them (4.2): for every column
  other than the label column, the cell's number when the cell parses, nothing when the
  cell is empty, blank, absent or does not parse.
\<close>

definition numeric_cells :: "(string \<Rightarrow> 'n option) \<Rightarrow> row_dict \<Rightarrow> (string \<rightharpoonup> 'n)" where
  "numeric_cells to_float row =
    (\<lambda>region. if region = [] then None
       else (case map_of row (Some region) of
               Some (CStr value) \<Rightarrow> if strip value = [] then None else to_float value
             | _ \<Rightarrow> None))"

text \<open>
  The table after one row, as the code leaves it: a row with a non-empty label sets the
  label's entry to the row's numeric cells; any other row leaves the table alone.
\<close>

definition stored_row :: "(string \<Rightarrow> 'n option) \<Rightarrow> 'n table \<Rightarrow> row_dict \<Rightarrow> 'n table" where
  "stored_row to_float table row =
    (case row_label row of
       CStr label \<Rightarrow> if label \<noteq> [] then table(label \<mapsto> numeric_cells to_float row) else table
     | _ \<Rightarrow> table)"

section \<open>Notions used to state what the merge needs of a document\<close>

text \<open>\<^verbatim>\<open>calibration_data[field][region_name]\<close>, when both keys are there.\<close>

definition table_value :: "'n table \<Rightarrow> string \<Rightarrow> string \<Rightarrow> 'n option" where
  "table_value table field region_name =
    (case table field of None \<Rightarrow> None | Some by_region \<Rightarrow> by_region region_name)"


section \<open>The merge on objects with identity\<close>

text \<open>
  The functions above pass documents by value. To say that the caller's document is not
  mutated, the document is here a graph of objects in a store, as in Python: a list or a
  dictionary is an object with an address, holding its elements; numbers, strings,
  booleans and \<^verbatim>\<open>None\<close> are immutable and are kept as values. The store is the list
  of all objects allocated so far, an address is an index into it, and allocation appends.
\<close>

datatype 'n pyval = PNone | PBool bool | PInt int | PFloat 'n | PStr string | PRef nat

datatype 'n pyobj = PList "'n pyval list" | PDict "(string \<times> 'n pyval) list"

type_synonym 'n heap = "'n pyobj list"

definition deref :: "'n heap \<Rightarrow> nat \<Rightarrow> 'n pyobj option" where
  "deref h a = (if a < length h then Some (h ! a) else None)"

text \<open>The results of a list of computations, up to the first exception.\<close>

fun all_results :: "('x + 'r) list \<Rightarrow> 'x + 'r list" where
  "all_results [] = Inr []"
| "all_results (Inl e # rs) = Inl e"
| "all_results (Inr v # rs) = (case all_results rs of Inl e \<Rightarrow> Inl e | Inr vs \<Rightarrow> Inr (v # vs))"

text \<open>
  \<^verbatim>\<open>json.dumps\<close>: the text, as the tree it denotes. The serialiser keeps the
  containers it is inside of as markers and raises \<^verbatim>\<open>ValueError\<close> when it meets one
  of them again.
\<close>

function dumps :: "'n heap \<Rightarrow> nat list \<Rightarrow> 'n pyval \<Rightarrow> exn + 'n json" where
  "dumps h markers PNone = Inr JNull"
| "dumps h markers (PBool b) = Inr (JBool b)"
| "dumps h markers (PInt i) = Inr (JInt i)"
| "dumps h markers (PFloat x) = Inr (JFloat x)"
| "dumps h markers (PStr s) = Inr (JStr s)"
| "dumps h markers (PRef a) =
    (if a \<in> set markers then Inl ValueError
     else if length h \<le> a then Inl SystemError
     else (case h ! a of
             PList vs \<Rightarrow>
               (case all_results (map (dumps h (a # markers)) vs) of
                  Inl e \<Rightarrow> Inl e
                | Inr xs \<Rightarrow> Inr (JArr xs))
           | PDict kvs \<Rightarrow>
               (case all_results (map (\<lambda>kv. dumps h (a # markers) (snd kv)) kvs) of
                  Inl e \<Rightarrow> Inl e
                | Inr xs \<Rightarrow> Inr (JObj (zip (map fst kvs) xs)))))"
  by pat_completeness auto
termination
proof (relation "measure (\<lambda>(h, markers, v). card ({..<length h} - set markers))", goal_cases)
  case 1
  show ?case by simp
next
  case (2 h markers a vs x)
  then have "a \<in> {..<length h} - set markers" by simp
  then have "0 < card ({..<length h} - set markers)"
    by (metis card_gt_0_iff empty_iff finite_Diff finite_lessThan)
  then show ?case using 2 by simp
next
  case (3 h markers a kvs x)
  then have "a \<in> {..<length h} - set markers" by simp
  then have "0 < card ({..<length h} - set markers)"
    by (metis card_gt_0_iff empty_iff finite_Diff finite_lessThan)
  then show ?case using 3 by simp
qed

text \<open>
  \<^verbatim>\<open>json.loads\<close>: every list and dictionary of the text becomes a new object.
\<close>

fun loads :: "'n heap \<Rightarrow> 'n json \<Rightarrow> 'n heap \<times> 'n pyval"
  and loads_list :: "'n heap \<Rightarrow> 'n json list \<Rightarrow> 'n heap \<times> 'n pyval list"
  and loads_items :: "'n heap \<Rightarrow> (string \<times> 'n json) list \<Rightarrow> 'n heap \<times> (string \<times> 'n pyval) list" where
  "loads h JNull = (h, PNone)"
| "loads h (JBool b) = (h, PBool b)"
| "loads h (JInt i) = (h, PInt i)"
| "loads h (JFloat x) = (h, PFloat x)"
| "loads h (JStr s) = (h, PStr s)"
| "loads h (JArr xs) = (case loads_list h xs of (h', vs) \<Rightarrow> (h' @ [PList vs], PRef (length h')))"
| "loads h (JObj kvs) = (case loads_items h kvs of (h', kvs') \<Rightarrow> (h' @ [PDict kvs'], PRef (length h')))"
| "loads_list h [] = (h, [])"
| "loads_list h (x # xs) =
    (case loads h x of (h', v) \<Rightarrow> (case loads_list h' xs of (h'', vs) \<Rightarrow> (h'', v # vs)))"
| "loads_items h [] = (h, [])"
| "loads_items h (kv # kvs) =
    (case loads h (snd kv) of (h', v) \<Rightarrow>
       (case loads_items h' kvs of (h'', kvs') \<Rightarrow> (h'', (fst kv, v) # kvs')))"

text \<open>The operators of section 2, on a value in a store.\<close>

fun h_contains :: "'n heap \<Rightarrow> string \<Rightarrow> 'n pyval \<Rightarrow> exn + bool" where
  "h_contains h key (PRef a) =
    (case deref h a of
       None \<Rightarrow> Inl SystemError
     | Some (PDict kvs) \<Rightarrow> Inr (key \<in> fst ` set kvs)
     | Some (PList vs) \<Rightarrow> Inr (PStr key \<in> set vs))"
| "h_contains h key (PStr s) = Inr (str_contains key s)"
| "h_contains h key _ = Inl TypeError"

fun h_getitem :: "'n heap \<Rightarrow> 'n pyval \<Rightarrow> string \<Rightarrow> exn + 'n pyval" where
  "h_getitem h (PRef a) key =
    (case deref h a of
       None \<Rightarrow> Inl SystemError
     | Some (PDict kvs) \<Rightarrow> (case map_of kvs key of None \<Rightarrow> Inl KeyError | Some v \<Rightarrow> Inr v)
     | Some (PList vs) \<Rightarrow> Inl TypeError)"
| "h_getitem h _ key = Inl TypeError"

text \<open>The assignment writes into the dictionary object; every reference to it sees it.\<close>

fun h_setitem :: "'n heap \<Rightarrow> 'n pyval \<Rightarrow> string \<Rightarrow> 'n pyval \<Rightarrow> exn + 'n heap" where
  "h_setitem h (PRef a) key v =
    (case deref h a of
       None \<Rightarrow> Inl SystemError
     | Some (PDict kvs) \<Rightarrow> Inr (h[a := PDict (AList.update key v kvs)])
     | Some (PList vs) \<Rightarrow> Inl TypeError)"
| "h_setitem h _ key v = Inl TypeError"

text \<open>
  \<^verbatim>\<open>obj.items()\<close> is a view of the dictionary object: the loop reads the entries
  from the object as it goes. The view is the object's address, with the number of
  entries when the iteration starts.
\<close>

fun h_items :: "'n heap \<Rightarrow> 'n pyval \<Rightarrow> exn + nat \<times> nat" where
  "h_items h (PRef a) =
    (case deref h a of
       None \<Rightarrow> Inl SystemError
     | Some (PDict kvs) \<Rightarrow> Inr (a, length kvs)
     | Some (PList vs) \<Rightarrow> Inl AttributeError)"
| "h_items h _ = Inl AttributeError"

text \<open>
  A run of a piece of the merge: what it printed, the store it leaves, and the exception
  if it raised one.
\<close>

type_synonym 'n run = "('n pyval, 'n) message list \<times> 'n heap \<times> exn option"

text \<open>Lines 137 to 147 on the store.\<close>

definition update_field_h ::
  "'n table \<Rightarrow> string \<Rightarrow> 'n pyval \<Rightarrow> string \<Rightarrow> 'n heap \<Rightarrow> 'n run" where
  "update_field_h calibration_data region_name region_config field h =
    (case calibration_data field of
       None \<Rightarrow> ([], h, None)
     | Some by_region \<Rightarrow>
        (case by_region region_name of
           None \<Rightarrow> ([], h, None)
         | Some new_value \<Rightarrow>
            (case h_contains h field region_config of
               Inl e \<Rightarrow> ([], h, Some e)
             | Inr False \<Rightarrow> ([WarnFieldNotFound field region_name], h, None)
             | Inr True \<Rightarrow>
                (case h_getitem h region_config field of
                   Inl e \<Rightarrow> ([], h, Some e)
                 | Inr old_value \<Rightarrow>
                    (case h_setitem h region_config field (PFloat new_value) of
                       Inl e \<Rightarrow> ([], h, Some e)
                     | Inr h' \<Rightarrow>
                        ([Updated region_name field old_value new_value], h', None))))))"

text \<open>Line 135 on the store.\<close>

fun update_region_h ::
  "'n table \<Rightarrow> string \<Rightarrow> 'n pyval \<Rightarrow> string list \<Rightarrow> 'n heap \<Rightarrow> 'n run" where
  "update_region_h calibration_data region_name region_config [] h = ([], h, None)"
| "update_region_h calibration_data region_name region_config (field # fields) h =
    (case update_field_h calibration_data region_name region_config field h of
       (out, h', Some e) \<Rightarrow> (out, h', Some e)
     | (out, h', None) \<Rightarrow>
        (case update_region_h calibration_data region_name region_config fields h' of
           (out', r) \<Rightarrow> (out @ out', r)))"

text \<open>
  Line 133 on the store: the iterator over the entries of the dictionary at
  \<open>regions\<close>, which had \<open>len\<close> entries when the loop started, at the positions still to
  visit. The iterator raises \<^verbatim>\<open>RuntimeError\<close> when the dictionary has changed size.
\<close>

fun update_regions_h ::
  "'n table \<Rightarrow> string list \<Rightarrow> nat \<Rightarrow> nat \<Rightarrow> nat list \<Rightarrow> 'n heap \<Rightarrow> 'n run" where
  "update_regions_h calibration_data calibration_fields regions len [] h = ([], h, None)"
| "update_regions_h calibration_data calibration_fields regions len (i # rest) h =
    (case deref h regions of
       Some (PDict kvs) \<Rightarrow>
         if length kvs \<noteq> len \<or> len \<le> i then ([], h, Some RuntimeError)
         else
           (case kvs ! i of
              (region_name, region_config) \<Rightarrow>
                (case update_region_h calibration_data region_name region_config
                        calibration_fields h of
                   (out, h', Some e) \<Rightarrow> (out, h', Some e)
                 | (out, h', None) \<Rightarrow>
                    (case update_regions_h calibration_data calibration_fields regions len
                            rest h' of
                       (out', r) \<Rightarrow> (out @ out', r))))
     | _ \<Rightarrow> ([], h, Some SystemError))"

text \<open>
  \<^verbatim>\<open>update_config_with_calibration\<close> on the store: the store it leaves, what it
  printed, and the exception raised or the value returned.
\<close>

definition update_config_with_calibration_h ::
  "'n heap \<Rightarrow> 'n pyval \<Rightarrow> 'n table \<Rightarrow> string list
    \<Rightarrow> 'n heap \<times> ('n pyval, 'n) message list \<times> (exn + 'n pyval)" where
  "update_config_with_calibration_h h config calibration_data calibration_fields =
    (case dumps h [] config of
       Inl e \<Rightarrow> (h, [], Inl e)
     | Inr text \<Rightarrow>
        (case loads h text of
           (h1, updated_config) \<Rightarrow>
             (case h_contains h1 ''regions'' updated_config of
                Inl e \<Rightarrow> (h1, [], Inl e)
              | Inr False \<Rightarrow> (h1, [WarnNoRegions], Inr updated_config)
              | Inr True \<Rightarrow>
                 (case h_getitem h1 updated_config ''regions'' of
                    Inl e \<Rightarrow> (h1, [], Inl e)
                  | Inr regions \<Rightarrow>
                     (case h_items h1 regions of
                        Inl e \<Rightarrow> (h1, [], Inl e)
                      | Inr (view, len) \<Rightarrow>
                         (case update_regions_h calibration_data calibration_fields
                                 view len [0..<len] h1 of
                            (out, h2, Some e) \<Rightarrow> (h2, out, Inl e)
                          | (out, h2, None) \<Rightarrow> (h2, out, Inr updated_config)))))))"

text \<open>
  Notions to state that the result shares nothing with the caller's objects: the values
  an object holds, a value that is not a reference to an object below address \<open>n\<close>,
  and a store whose objects from address \<open>n\<close> on hold such values only.
\<close>

fun vals_of :: "'n pyobj \<Rightarrow> 'n pyval list" where
  "vals_of (PList vs) = vs"
| "vals_of (PDict kvs) = map snd kvs"

fun val_above :: "nat \<Rightarrow> 'n pyval \<Rightarrow> bool" where
  "val_above n (PRef a) = (n \<le> a)"
| "val_above n v = True"

definition closed_above :: "nat \<Rightarrow> 'n heap \<Rightarrow> bool" where
  "closed_above n h =
    (\<forall>a. n \<le> a \<and> a < length h \<longrightarrow> (\<forall>v \<in> set (vals_of (h ! a)). val_above n v))"

text \<open>
  A value of the store that is a tree for a JSON value: every list and dictionary of the
  JSON value is an object of its own, reached along one path only. The set \<open>A\<close> bounds
  the addresses the tree occupies; the elements of a container occupy disjoint parts of it.
\<close>

inductive tree :: "'n heap \<Rightarrow> nat set \<Rightarrow> 'n pyval \<Rightarrow> 'n json \<Rightarrow> bool"
  and trees :: "'n heap \<Rightarrow> nat set \<Rightarrow> 'n pyval list \<Rightarrow> 'n json list \<Rightarrow> bool"
  and tree_items ::
    "'n heap \<Rightarrow> nat set \<Rightarrow> (string \<times> 'n pyval) list \<Rightarrow> (string \<times> 'n json) list \<Rightarrow> bool"
  for h :: "'n heap" where
  tree_None: "tree h A PNone JNull"
| tree_Bool: "tree h A (PBool b) (JBool b)"
| tree_Int: "tree h A (PInt i) (JInt i)"
| tree_Float: "tree h A (PFloat x) (JFloat x)"
| tree_Str: "tree h A (PStr s) (JStr s)"
| tree_List: "a \<in> A \<Longrightarrow> a < length h \<Longrightarrow> h ! a = PList vs \<Longrightarrow> trees h (A - {a}) vs ts
    \<Longrightarrow> tree h A (PRef a) (JArr ts)"
| tree_Dict: "a \<in> A \<Longrightarrow> a < length h \<Longrightarrow> h ! a = PDict kvs \<Longrightarrow> tree_items h (A - {a}) kvs kts
    \<Longrightarrow> tree h A (PRef a) (JObj kts)"
| trees_Nil: "trees h A [] []"
| trees_Cons: "tree h B v t \<Longrightarrow> trees h C vs ts \<Longrightarrow> B \<inter> C = {} \<Longrightarrow> B \<union> C \<subseteq> A
    \<Longrightarrow> trees h A (v # vs) (t # ts)"
| items_Nil: "tree_items h A [] []"
| items_Cons: "tree h B v t \<Longrightarrow> tree_items h C kvs kts \<Longrightarrow> B \<inter> C = {} \<Longrightarrow> B \<union> C \<subseteq> A
    \<Longrightarrow> tree_items h A ((k, v) # kvs) ((k, t) # kts)"

text \<open>The address of a value that is a reference.\<close>

fun ref_of :: "'n pyval \<Rightarrow> nat set" where
  "ref_of (PRef a) = {a}"
| "ref_of v = {}"

section \<open>Basic facts\<close>

lemma deep_copy_id: "deep_copy v = v"
proof (induction v)
  case (JObj kvs)
  have "map (\<lambda>(k, v). (k, deep_copy v)) kvs = map (\<lambda>p. p) kvs"
    by (rule map_cong) (auto simp: JObj.IH snds.intros)
  then show ?case by simp
qed (auto simp: map_idI)

lemma key_in_iff: "(k \<in> fst ` set kvs) = (map_of kvs k \<noteq> None)"
  by (simp add: map_of_eq_None_iff)

text \<open>The inner loop's body on a region configuration that is a dictionary.\<close>

lemma update_field_obj:
  "update_field table rn (JObj kvs) f =
    (case table f of
       None \<Rightarrow> ([], Inr (JObj kvs))
     | Some by_region \<Rightarrow>
        (case by_region rn of
           None \<Rightarrow> ([], Inr (JObj kvs))
         | Some x \<Rightarrow>
            (case map_of kvs f of
               None \<Rightarrow> ([WarnFieldNotFound f rn], Inr (JObj kvs))
             | Some old \<Rightarrow> ([Updated rn f old x], Inr (JObj (AList.update f (JFloat x) kvs))))))"
  by (auto simp: update_field_def key_in_iff split: option.splits bool.splits)

lemma update_field_spec:
  "update_field table rn (JObj kvs) f =
     (fst (spec_step table rn kvs f), Inr (JObj (snd (spec_step table rn kvs f))))"
  by (simp add: update_field_obj spec_step_def split: option.splits)

lemma update_region_spec:
  "update_region table rn (JObj kvs) fs =
     (fst (spec_fields table rn kvs fs), Inr (JObj (snd (spec_fields table rn kvs fs))))"
  by (induction fs arbitrary: kvs) (auto simp: update_field_spec split: prod.splits)

lemma update_regions_spec:
  "update_regions table fs (map (\<lambda>(rn, kvs). (rn, JObj kvs)) regions) =
     (fst (spec_regions table fs regions),
      Inr (map (\<lambda>(rn, kvs). (rn, JObj kvs)) (snd (spec_regions table fs regions))))"
  by (induction regions) (auto simp: update_region_spec split: prod.splits)

text \<open>The merge on a document that is a dictionary with the key \<^verbatim>\<open>regions\<close>.\<close>

lemma update_config_obj:
  assumes "map_of top_level ''regions'' = Some regions"
  shows "update_config_with_calibration (JObj top_level) table fs =
    (case py_items regions of
       Inl e \<Rightarrow> ([], Inl e)
     | Inr entries \<Rightarrow>
        (case update_regions table fs entries of
           (out, Inl e) \<Rightarrow> (out, Inl e)
         | (out, Inr entries') \<Rightarrow>
             (out, Inr (JObj (AList.update ''regions'' (JObj entries') top_level)))))"
  using assms
  by (auto simp: update_config_with_calibration_def deep_copy_id key_in_iff
      split: sum.splits prod.splits)

lemma spec_step_keys: "map fst (snd (spec_step table rn kvs f)) = map fst kvs"
  by (auto simp: spec_step_def update_keys key_in_iff split: option.splits intro!: map_idI)

lemma spec_fields_keys: "map fst (snd (spec_fields table rn kvs fs)) = map fst kvs"
proof (induction fs arbitrary: kvs)
  case Nil
  then show ?case by simp
next
  case (Cons f fs)
  obtain out kvs' where step: "spec_step table rn kvs f = (out, kvs')"
    by (cases "spec_step table rn kvs f")
  have "map fst kvs' = map fst kvs"
    using spec_step_keys [of table rn kvs f] step by simp
  with Cons.IH [of kvs'] step show ?case
    by (auto split: prod.splits)
qed

lemma spec_regions_keys:
  "map (\<lambda>(rn, kvs). (rn, map fst kvs)) (snd (spec_regions table fs regions)) =
   map (\<lambda>(rn, kvs). (rn, map fst kvs)) regions"
proof (induction regions)
  case Nil
  then show ?case by simp
next
  case (Cons r regions)
  obtain rn kvs where r: "r = (rn, kvs)" by (cases r)
  show ?case
    using Cons.IH spec_fields_keys [of table rn kvs fs]
    by (auto simp: r split: prod.splits)
qed

section \<open>The merge step by step\<close>

text \<open>
  Claim C1. On a document whose \<^verbatim>\<open>regions\<close> value is a mapping of region names to
  mappings, the merge is the specification's step run for every region entry in the
  document's order and every field in selector order: skip when the table has no entry for
  the field, skip when the field has no value for the region, warn and skip when the field
  is not a key of the region's configuration, otherwise overwrite the value and record
  the change with the old and the new value. No step inserts a key: every region keeps its
  name and its list of keys.
\<close>

theorem merge_follows_spec_steps:
  assumes "map_of top_level ''regions'' = Some (regions_value regions)"
  shows "update_config_with_calibration (JObj top_level) table selector =
           (fst (spec_regions table selector regions),
            Inr (JObj (AList.update ''regions''
                   (regions_value (snd (spec_regions table selector regions))) top_level)))
         \<and> map (\<lambda>(region_name, region_config). (region_name, map fst region_config))
               (snd (spec_regions table selector regions)) =
           map (\<lambda>(region_name, region_config). (region_name, map fst region_config)) regions"
  using assms
  by (simp add: update_config_obj regions_value_def update_regions_spec spec_regions_keys)

theorem merge_follows_spec_steps_witness:
  "map_of [(''name'', JStr ''m''),
           (''regions'', JObj [(''A'', JObj [(''full_fill_percent'', JInt 10), (''x'', JBool True)]),
                               (''B'', JObj [(''x'', JNull)])])] ''regions''
     = Some (regions_value [(''A'', [(''full_fill_percent'', JInt 10), (''x'', JBool True)]),
                            (''B'', [(''x'', JNull)])])
   \<and> update_config_with_calibration
        (JObj [(''name'', JStr ''m''),
           (''regions'', JObj [(''A'', JObj [(''full_fill_percent'', JInt 10), (''x'', JBool True)]),
                               (''B'', JObj [(''x'', JNull)])])])
        [''full_fill_percent'' \<mapsto> [''A'' \<mapsto> (55::int), ''B'' \<mapsto> 7], ''y'' \<mapsto> [''A'' \<mapsto> 1]]
        [''empty_fill_percent'', ''full_fill_percent'']
     = ([Updated ''A'' ''full_fill_percent'' (JInt 10) 55,
         WarnFieldNotFound ''full_fill_percent'' ''B''],
        Inr (JObj [(''name'', JStr ''m''),
           (''regions'', JObj [(''A'', JObj [(''full_fill_percent'', JFloat 55), (''x'', JBool True)]),
                               (''B'', JObj [(''x'', JNull)])])]))"
  using merge_follows_spec_steps
    [of "[(''name'', JStr ''m''),
           (''regions'', JObj [(''A'', JObj [(''full_fill_percent'', JInt 10), (''x'', JBool True)]),
                               (''B'', JObj [(''x'', JNull)])])]"
        "[(''A'', [(''full_fill_percent'', JInt 10), (''x'', JBool True)]), (''B'', [(''x'', JNull)])]"
        "[''full_fill_percent'' \<mapsto> [''A'' \<mapsto> (55::int), ''B'' \<mapsto> 7], ''y'' \<mapsto> [''A'' \<mapsto> 1]]"
        "[''empty_fill_percent'', ''full_fill_percent'']"]
  by (simp add: regions_value_def spec_step_def)

section \<open>A document without regions\<close>

text \<open>
  Claim C5. When the top-level mapping of the document lacks the key \<^verbatim>\<open>regions\<close>,
  the merge prints the one warning, records no change and returns normally a copy equal to
  the input document.
\<close>

theorem no_regions_is_noop:
  assumes "''regions'' \<notin> fst ` set top_level"
  shows "update_config_with_calibration (JObj top_level) table selector =
           ([WarnNoRegions], Inr (JObj top_level))"
  using assms by (simp add: update_config_with_calibration_def deep_copy_id)

theorem no_regions_is_noop_witness:
  "''regions'' \<notin> fst ` set [(''name'', JStr ''m''), (''region'', JObj [])]
   \<and> update_config_with_calibration (JObj [(''name'', JStr ''m''), (''region'', JObj [])])
        [''full_fill_percent'' \<mapsto> [''A'' \<mapsto> (55::int)]] [''full_fill_percent'']
     = ([WarnNoRegions], Inr (JObj [(''name'', JStr ''m''), (''region'', JObj [])]))"
  using no_regions_is_noop
    [of "[(''name'', JStr ''m''), (''region'', JObj [])]"
        "[''full_fill_percent'' \<mapsto> [''A'' \<mapsto> (55::int)]]" "[''full_fill_percent'']"]
  by simp

section \<open>The frame of the merge\<close>

text \<open>A region configuration that is not a dictionary is never changed by a step.\<close>

lemma update_field_not_obj:
  "\<forall>kvs. rc \<noteq> JObj kvs \<Longrightarrow> update_field table rn rc f = (out, Inr rc') \<Longrightarrow> rc' = rc"
  by (cases rc) (auto simp: update_field_def split: option.splits bool.splits sum.splits)

lemma field_frame_refl: "field_frame table selector rn p p"
  by (cases p) (simp add: field_frame_def)

lemma field_frame_trans:
  "field_frame table selector rn p q \<Longrightarrow> field_frame table selector rn q r
    \<Longrightarrow> field_frame table selector rn p r"
  by (cases p; cases q; cases r) (auto simp: field_frame_def)

lemma fields_frame_refl: "list_all2 (field_frame table selector rn) kvs kvs"
  by (simp add: list_all2_refl field_frame_refl)

lemma fields_frame_trans:
  "list_all2 (field_frame table selector rn) xs ys
    \<Longrightarrow> list_all2 (field_frame table selector rn) ys zs
    \<Longrightarrow> list_all2 (field_frame table selector rn) xs zs"
  by (rule list_all2_trans [where ?P1.0 = "field_frame table selector rn"
        and ?P2.0 = "field_frame table selector rn"]) (auto intro: field_frame_trans)

lemma region_frame_refl: "region_frame table selector p p"
  by (cases p) (auto simp: region_frame_def fields_frame_refl split: json.splits)

lemma region_frame_trans:
  "region_frame table selector p q \<Longrightarrow> region_frame table selector q r
    \<Longrightarrow> region_frame table selector p r"
  by (cases p; cases q; cases r)
     (auto simp: region_frame_def split: json.splits intro: fields_frame_trans)

lemma update_fields_frame:
  assumes "map_of kvs f = Some old" "table f = Some by_region" "by_region rn = Some x"
    "f \<in> set selector"
  shows "list_all2 (field_frame table selector rn) kvs (AList.update f (JFloat x) kvs)"
  using assms(1)
proof (induction kvs)
  case Nil
  then show ?case by simp
next
  case (Cons p kvs)
  obtain k v where p: "p = (k, v)" by (cases p)
  show ?case
  proof (cases "k = f")
    case True
    have "field_frame table selector rn (f, v) (f, JFloat x)"
      using assms(2-4) by (simp add: field_frame_def)
    then show ?thesis by (simp add: p True fields_frame_refl)
  next
    case False
    then show ?thesis
      using Cons by (simp add: p field_frame_refl)
  qed
qed

lemma update_field_frame:
  assumes "update_field table rn rc f = (out, Inr rc')" "f \<in> set selector"
  shows "region_frame table selector (rn, rc) (rn, rc')"
proof (cases "\<exists>kvs. rc = JObj kvs")
  case True
  then obtain kvs where rc: "rc = JObj kvs" by blast
  show ?thesis
    using assms
    by (auto simp: rc update_field_obj region_frame_def fields_frame_refl
        split: option.splits intro: update_fields_frame)
next
  case False
  then have "rc' = rc" using assms(1) update_field_not_obj by blast
  then show ?thesis by (simp add: region_frame_refl)
qed

lemma update_region_frame:
  assumes "update_region table rn rc fs = (out, Inr rc')" "set fs \<subseteq> set selector"
  shows "region_frame table selector (rn, rc) (rn, rc')"
  using assms
proof (induction fs arbitrary: rc out)
  case Nil
  then show ?case by (simp add: region_frame_refl)
next
  case (Cons f fs)
  from Cons.prems(1) obtain o1 rc1 o2 where
    step: "update_field table rn rc f = (o1, Inr rc1)" and
    rest: "update_region table rn rc1 fs = (o2, Inr rc')"
    by (auto split: prod.splits sum.splits)
  have "region_frame table selector (rn, rc) (rn, rc1)"
    using step Cons.prems(2) by (simp add: update_field_frame)
  moreover have "region_frame table selector (rn, rc1) (rn, rc')"
    using Cons.IH [OF rest] Cons.prems(2) by simp
  ultimately show ?case by (rule region_frame_trans)
qed

lemma update_regions_frame:
  assumes "update_regions table selector entries = (out, Inr entries')"
  shows "list_all2 (region_frame table selector) entries entries'"
  using assms
proof (induction entries arbitrary: out entries')
  case Nil
  then show ?case by simp
next
  case (Cons e entries)
  obtain rn rc where e: "e = (rn, rc)" by (cases e)
  from Cons.prems obtain o1 rc' o2 rest' where
    one: "update_region table rn rc selector = (o1, Inr rc')" and
    rest: "update_regions table selector entries = (o2, Inr rest')" and
    res: "entries' = (rn, rc') # rest'"
    by (auto simp: e split: prod.splits sum.splits)
  show ?case
    using update_region_frame [OF one] Cons.IH [OF rest] by (simp add: e res)
qed

lemma top_frame_refl: "top_frame table selector p p"
  by (cases p) (simp add: top_frame_def)

lemma update_top_frame:
  assumes "map_of top_level ''regions'' = Some (JObj entries)"
    "list_all2 (region_frame table selector) entries entries'"
  shows "list_all2 (top_frame table selector) top_level
           (AList.update ''regions'' (JObj entries') top_level)"
  using assms(1)
proof (induction top_level)
  case Nil
  then show ?case by simp
next
  case (Cons p top_level)
  obtain k v where p: "p = (k, v)" by (cases p)
  show ?case
  proof (cases "k = ''regions''")
    case True
    then have "v = JObj entries" using Cons.prems by (simp add: p)
    then have "top_frame table selector (k, v) (k, JObj entries')"
      using assms(2) True by (simp add: top_frame_def)
    then show ?thesis by (simp add: p True list_all2_refl top_frame_refl)
  next
    case False
    then show ?thesis
      using Cons by (simp add: p top_frame_refl)
  qed
qed

text \<open>
  Claim C4. Whenever the merge returns, its result has the structure and the content of the
  input document except for values of selected fields overwritten inside region
  configurations: every top-level entry other than \<^verbatim>\<open>regions\<close> keeps its key and
  value, every region keeps its name, every region configuration keeps its keys, and a
  field keeps its value unless it is in the selector and now holds the table's value for
  it. A field that is not selected keeps its value even when the table has data for it.
\<close>

theorem merge_changes_selected_only:
  assumes "update_config_with_calibration config table selector = (out, Inr config')"
  shows "same_except_selected table selector config config'"
proof (cases config)
  case (JObj top_level)
  show ?thesis
  proof (cases "map_of top_level ''regions''")
    case None
    then have "config' = config"
      using assms JObj
      by (simp add: update_config_with_calibration_def deep_copy_id key_in_iff)
    then show ?thesis
      by (simp add: JObj same_except_selected_def list_all2_refl top_frame_refl)
  next
    case (Some regions)
    from assms obtain entries entries' where
      items: "py_items regions = Inr entries" and
      run: "update_regions table selector entries = (out, Inr entries')" and
      res: "config' = JObj (AList.update ''regions'' (JObj entries') top_level)"
      by (auto simp: JObj update_config_obj [OF Some] split: sum.splits prod.splits)
    from items have regions: "regions = JObj entries" by (cases regions) auto
    show ?thesis
      using update_top_frame [OF Some [unfolded regions] update_regions_frame [OF run]]
      by (simp add: JObj same_except_selected_def res)
  qed
qed (use assms in \<open>auto simp: update_config_with_calibration_def same_except_selected_def
      deep_copy_id Let_def simp del: deep_copy.simps split: sum.splits bool.splits if_splits\<close>)


theorem merge_changes_selected_only_witness:
  "update_config_with_calibration
     (JObj [(''name'', JStr ''m''),
            (''regions'', JObj [(''A'', JObj [(''full_fill_percent'', JInt 10),
                                              (''brightness_threshold'', JInt 3)])])])
     [''full_fill_percent'' \<mapsto> [''A'' \<mapsto> (55::int)], ''brightness_threshold'' \<mapsto> [''A'' \<mapsto> 9]]
     [''full_fill_percent'']
   = ([Updated ''A'' ''full_fill_percent'' (JInt 10) 55],
      Inr (JObj [(''name'', JStr ''m''),
            (''regions'', JObj [(''A'', JObj [(''full_fill_percent'', JFloat 55),
                                              (''brightness_threshold'', JInt 3)])])]))
   \<and> same_except_selected
       [''full_fill_percent'' \<mapsto> [''A'' \<mapsto> (55::int)], ''brightness_threshold'' \<mapsto> [''A'' \<mapsto> 9]]
       [''full_fill_percent'']
       (JObj [(''name'', JStr ''m''),
            (''regions'', JObj [(''A'', JObj [(''full_fill_percent'', JInt 10),
                                              (''brightness_threshold'', JInt 3)])])])
       (JObj [(''name'', JStr ''m''),
            (''regions'', JObj [(''A'', JObj [(''full_fill_percent'', JFloat 55),
                                              (''brightness_threshold'', JInt 3)])])])"
proof -
  have run: "update_config_with_calibration
     (JObj [(''name'', JStr ''m''),
            (''regions'', JObj [(''A'', JObj [(''full_fill_percent'', JInt 10),
                                              (''brightness_threshold'', JInt 3)])])])
     [''full_fill_percent'' \<mapsto> [''A'' \<mapsto> (55::int)], ''brightness_threshold'' \<mapsto> [''A'' \<mapsto> 9]]
     [''full_fill_percent'']
   = ([Updated ''A'' ''full_fill_percent'' (JInt 10) 55],
      Inr (JObj [(''name'', JStr ''m''),
            (''regions'', JObj [(''A'', JObj [(''full_fill_percent'', JFloat 55),
                                              (''brightness_threshold'', JInt 3)])])]))"
    by (simp add: update_config_with_calibration_def update_field_def)
  from merge_changes_selected_only [OF run] run show ?thesis by simp
qed

section \<open>Idempotence\<close>

text \<open>How one step acts on the lookup of a key.\<close>

lemma spec_step_other:
  "k \<noteq> f \<Longrightarrow> map_of (snd (spec_step table rn kvs f)) k = map_of kvs k"
  by (simp add: spec_step_def update_conv' split: option.splits)

lemma spec_step_same:
  "table f = Some by_region \<Longrightarrow> by_region rn = Some x \<Longrightarrow> map_of kvs f \<noteq> None
    \<Longrightarrow> map_of (snd (spec_step table rn kvs f)) f = Some (JFloat x)"
  by (auto simp: spec_step_def update_conv' split: option.splits)

lemma spec_step_keeps:
  assumes "table f = Some by_region" "by_region rn = Some x" "map_of kvs f = Some (JFloat x)"
  shows "map_of (snd (spec_step table rn kvs g)) f = Some (JFloat x)"
proof (cases "g = f")
  case True
  then show ?thesis using assms spec_step_same [of table f by_region rn x kvs] by simp
next
  case False
  then show ?thesis using assms(3) by (simp add: spec_step_other)
qed

lemma spec_fields_keeps:
  assumes "table f = Some by_region" "by_region rn = Some x"
  shows "map_of kvs f = Some (JFloat x)
    \<Longrightarrow> map_of (snd (spec_fields table rn kvs gs)) f = Some (JFloat x)"
proof (induction gs arbitrary: kvs)
  case Nil
  then show ?case by simp
next
  case (Cons g gs)
  obtain out kvs' where step: "spec_step table rn kvs g = (out, kvs')"
    by (cases "spec_step table rn kvs g")
  have "map_of kvs' f = Some (JFloat x)"
    using spec_step_keeps [of table f by_region rn x kvs g] assms Cons.prems step by simp
  from Cons.IH [OF this] step show ?case
    by (auto split: prod.splits)
qed

lemma spec_step_dom: "(map_of (snd (spec_step table rn kvs g)) f = None) = (map_of kvs f = None)"
  using spec_step_keys [of table rn kvs g]
  by (metis map_of_eq_None_iff set_map)

text \<open>After the steps of a region, every selected field the table has a value for holds it.\<close>

lemma spec_fields_settled:
  assumes "table f = Some by_region" "by_region rn = Some x"
  shows "f \<in> set fs \<Longrightarrow> map_of kvs f \<noteq> None
    \<Longrightarrow> map_of (snd (spec_fields table rn kvs fs)) f = Some (JFloat x)"
proof (induction fs arbitrary: kvs)
  case Nil
  then show ?case by simp
next
  case (Cons g gs)
  obtain out kvs' where step: "spec_step table rn kvs g = (out, kvs')"
    by (cases "spec_step table rn kvs g")
  have dom: "map_of kvs' f \<noteq> None"
    using spec_step_dom [of table rn kvs g f] step Cons.prems(2) by simp
  show ?case
  proof (cases "g = f")
    case True
    have "map_of kvs' f = Some (JFloat x)"
      using spec_step_same [of table f by_region rn x kvs] assms Cons.prems(2) step True
      by simp
    then have "map_of (snd (spec_fields table rn kvs' gs)) f = Some (JFloat x)"
      using spec_fields_keeps [of table f by_region rn x kvs' gs] assms by simp
    with step show ?thesis
      by (auto split: prod.splits)
  next
    case False
    then have "f \<in> set gs" using Cons.prems(1) by simp
    from Cons.IH [OF this dom] step show ?thesis
      by (auto split: prod.splits)
  qed
qed

text \<open>A region whose selected fields hold the table's values is a fixed point.\<close>

lemma spec_step_fixed:
  assumes "\<And>by_region x. table f = Some by_region \<Longrightarrow> by_region rn = Some x
             \<Longrightarrow> map_of kvs f \<noteq> None \<Longrightarrow> map_of kvs f = Some (JFloat x)"
  shows "snd (spec_step table rn kvs f) = kvs
       \<and> (\<forall>ev \<in> set (fst (spec_step table rn kvs f)). no_real_change ev)"
  using assms
  by (auto simp: spec_step_def no_real_change_def update_triv split: option.splits)

lemma spec_fields_fixed:
  assumes "\<And>f by_region x. f \<in> set fs \<Longrightarrow> table f = Some by_region \<Longrightarrow> by_region rn = Some x
             \<Longrightarrow> map_of kvs f \<noteq> None \<Longrightarrow> map_of kvs f = Some (JFloat x)"
  shows "snd (spec_fields table rn kvs fs) = kvs
       \<and> (\<forall>ev \<in> set (fst (spec_fields table rn kvs fs)). no_real_change ev)"
  using assms
proof (induction fs)
  case Nil
  then show ?case by simp
next
  case (Cons g gs)
  have step: "snd (spec_step table rn kvs g) = kvs
       \<and> (\<forall>ev \<in> set (fst (spec_step table rn kvs g)). no_real_change ev)"
    by (rule spec_step_fixed) (use Cons.prems in auto)
  have rest: "snd (spec_fields table rn kvs gs) = kvs
       \<and> (\<forall>ev \<in> set (fst (spec_fields table rn kvs gs)). no_real_change ev)"
    by (rule Cons.IH) (use Cons.prems in auto)
  show ?case
    using step rest by (auto split: prod.splits)
qed

lemma spec_fields_idem:
  "snd (spec_fields table rn (snd (spec_fields table rn kvs fs)) fs) = snd (spec_fields table rn kvs fs)
   \<and> (\<forall>ev \<in> set (fst (spec_fields table rn (snd (spec_fields table rn kvs fs)) fs)).
         no_real_change ev)"
proof (rule spec_fields_fixed)
  fix f by_region x
  assume f: "f \<in> set fs" and t: "table f = Some by_region" "by_region rn = Some x"
    and d: "map_of (snd (spec_fields table rn kvs fs)) f \<noteq> None"
  have "map_of kvs f \<noteq> None"
    using d spec_fields_keys [of table rn kvs fs]
    by (metis map_of_eq_None_iff set_map)
  then show "map_of (snd (spec_fields table rn kvs fs)) f = Some (JFloat x)"
    using spec_fields_settled [of table f by_region rn x fs kvs] t f by simp
qed


text \<open>A value that is not a dictionary yields no change record and stays as it is.\<close>

lemma update_field_not_obj_out:
  "\<forall>kvs. rc \<noteq> JObj kvs \<Longrightarrow> update_field table rn rc f = (out, r)
    \<Longrightarrow> \<forall>ev \<in> set out. no_real_change ev"
  by (cases rc)
     (auto simp: update_field_def no_real_change_def split: option.splits bool.splits sum.splits)

lemma update_region_not_obj:
  assumes "\<forall>kvs. rc \<noteq> JObj kvs" "update_region table rn rc fs = (out, Inr rc')"
  shows "rc' = rc \<and> (\<forall>ev \<in> set out. no_real_change ev)"
  using assms(2)
proof (induction fs arbitrary: out)
  case Nil
  then show ?case by simp
next
  case (Cons f fs)
  from Cons.prems obtain o1 rc1 o2 where
    step: "update_field table rn rc f = (o1, Inr rc1)" and
    rest: "update_region table rn rc1 fs = (o2, Inr rc')" and
    out: "out = o1 @ o2"
    by (auto split: prod.splits sum.splits)
  have rc1: "rc1 = rc" using update_field_not_obj [OF assms(1) step] .
  show ?case
    using Cons.IH [OF rest [unfolded rc1]] update_field_not_obj_out [OF assms(1) step]
    by (auto simp: out)
qed

lemma update_region_idem:
  assumes "update_region table rn rc fs = (out, Inr rc')"
  shows "snd (update_region table rn rc' fs) = Inr rc'
       \<and> (\<forall>ev \<in> set (fst (update_region table rn rc' fs)). no_real_change ev)"
proof (cases "\<exists>kvs. rc = JObj kvs")
  case True
  then obtain kvs where rc: "rc = JObj kvs" by blast
  have rc': "rc' = JObj (snd (spec_fields table rn kvs fs))"
    using assms by (simp add: rc update_region_spec)
  show ?thesis
    using spec_fields_idem [of table rn kvs fs] by (simp add: rc' update_region_spec)
next
  case False
  then have "rc' = rc \<and> (\<forall>ev \<in> set out. no_real_change ev)"
    using update_region_not_obj [OF _ assms] by blast
  then show ?thesis using assms by simp
qed

lemma update_regions_idem:
  assumes "update_regions table fs entries = (out, Inr entries')"
  shows "snd (update_regions table fs entries') = Inr entries'
       \<and> (\<forall>ev \<in> set (fst (update_regions table fs entries')). no_real_change ev)"
  using assms
proof (induction entries arbitrary: out entries')
  case Nil
  then show ?case by simp
next
  case (Cons e entries)
  obtain rn rc where e: "e = (rn, rc)" by (cases e)
  from Cons.prems obtain o1 rc' o2 rest' where
    one: "update_region table rn rc fs = (o1, Inr rc')" and
    rest: "update_regions table fs entries = (o2, Inr rest')" and
    res: "entries' = (rn, rc') # rest'"
    by (auto simp: e split: prod.splits sum.splits)
  show ?case
    using update_region_idem [OF one] Cons.IH [OF rest]
    by (auto simp: res split: prod.splits sum.splits)
qed

text \<open>
  Claim C3. The merge is idempotent: when it returns a document, running it again on that
  document with the same table and selector returns the same document, and every change
  record of the second run has an old value equal to its new value.
\<close>

theorem merge_idempotent:
  assumes "update_config_with_calibration config table selector = (out, Inr config')"
  shows "snd (update_config_with_calibration config' table selector) = Inr config'
       \<and> (\<forall>ev \<in> set (fst (update_config_with_calibration config' table selector)).
             no_real_change ev)"
proof (cases "\<exists>top_level regions. config = JObj top_level \<and> map_of top_level ''regions'' = Some regions")
  case True
  then obtain top_level regions where
    config: "config = JObj top_level" and regions: "map_of top_level ''regions'' = Some regions"
    by blast
  from assms obtain entries entries' where
    items: "py_items regions = Inr entries" and
    run: "update_regions table selector entries = (out, Inr entries')" and
    res: "config' = JObj (AList.update ''regions'' (JObj entries') top_level)"
    by (auto simp: config update_config_obj [OF regions] split: sum.splits prod.splits)
  have again: "map_of (AList.update ''regions'' (JObj entries') top_level) ''regions''
      = Some (JObj entries')"
    by (simp add: update_conv')
  have same: "AList.update ''regions'' (JObj entries')
      (AList.update ''regions'' (JObj entries') top_level)
      = AList.update ''regions'' (JObj entries') top_level"
    using again by (rule update_triv)
  show ?thesis
    using update_regions_idem [OF run]
    by (auto simp: res update_config_obj [OF again] same split: prod.splits sum.splits)
next
  case False
  have first: "out = [WarnNoRegions] \<and> config' = config"
    using assms False
    by (cases config)
       (auto simp: update_config_with_calibration_def deep_copy_id Let_def key_in_iff
         simp del: deep_copy.simps split: sum.splits bool.splits if_splits option.splits)
  then show ?thesis
    using assms by (simp add: no_real_change_def)
qed

theorem merge_idempotent_witness:
  "update_config_with_calibration
     (JObj [(''regions'', JObj [(''A'', JObj [(''full_fill_percent'', JInt 10)])])])
     [''full_fill_percent'' \<mapsto> [''A'' \<mapsto> (55::int)]] [''full_fill_percent'']
   = ([Updated ''A'' ''full_fill_percent'' (JInt 10) 55],
      Inr (JObj [(''regions'', JObj [(''A'', JObj [(''full_fill_percent'', JFloat 55)])])]))
   \<and> update_config_with_calibration
     (JObj [(''regions'', JObj [(''A'', JObj [(''full_fill_percent'', JFloat 55)])])])
     [''full_fill_percent'' \<mapsto> [''A'' \<mapsto> (55::int)]] [''full_fill_percent'']
   = ([Updated ''A'' ''full_fill_percent'' (JFloat 55) 55],
      Inr (JObj [(''regions'', JObj [(''A'', JObj [(''full_fill_percent'', JFloat 55)])])]))
   \<and> no_real_change (Updated ''A'' ''full_fill_percent'' (JFloat 55) (55::int))"
proof -
  have run: "update_config_with_calibration
     (JObj [(''regions'', JObj [(''A'', JObj [(''full_fill_percent'', JInt 10)])])])
     [''full_fill_percent'' \<mapsto> [''A'' \<mapsto> (55::int)]] [''full_fill_percent'']
   = ([Updated ''A'' ''full_fill_percent'' (JInt 10) 55],
      Inr (JObj [(''regions'', JObj [(''A'', JObj [(''full_fill_percent'', JFloat 55)])])]))"
    by (simp add: update_config_with_calibration_def update_field_def)
  have again: "update_config_with_calibration
     (JObj [(''regions'', JObj [(''A'', JObj [(''full_fill_percent'', JFloat 55)])])])
     [''full_fill_percent'' \<mapsto> [''A'' \<mapsto> (55::int)]] [''full_fill_percent'']
   = ([Updated ''A'' ''full_fill_percent'' (JFloat 55) 55],
      Inr (JObj [(''regions'', JObj [(''A'', JObj [(''full_fill_percent'', JFloat 55)])])]))"
    by (simp add: update_config_with_calibration_def update_field_def)
  from merge_idempotent [OF run] run again show ?thesis by simp
qed

section \<open>The rows of the reader\<close>

lemma set_update_subset: "set (AList.update k v al) \<subseteq> insert (k, v) (set al)"
  by (induction al) auto

lemma row_ok_Nil: "row_ok []"
  by (simp add: row_ok_def)

lemma row_ok_update:
  assumes "row_ok d" "\<And>l. v = CRest l \<Longrightarrow> k = None"
  shows "row_ok (AList.update k v d)"
proof -
  have "distinct (map fst (AList.update k v d))"
    using assms(1) by (simp add: row_ok_def distinct_update)
  moreover have "k' = None" if "(k', CRest l) \<in> set (AList.update k v d)" for k' l
  proof -
    from that have "(k', CRest l) = (k, v) \<or> (k', CRest l) \<in> set d"
      using set_update_subset [of k v d] by blast
    then show ?thesis using assms by (auto simp: row_ok_def)
  qed
  then have "\<forall>(k', v') \<in> set (AList.update k v d). \<forall>l. v' = CRest l \<longrightarrow> k' = None"
    by auto
  ultimately show ?thesis by (simp add: row_ok_def)
qed

lemma row_ok_fold_cells:
  "row_ok d \<Longrightarrow> row_ok (fold (\<lambda>(k, v). AList.update (Some k) (CStr v)) kvs d)"
  by (induction kvs arbitrary: d) (auto intro: row_ok_update)

lemma row_ok_fold_missing:
  "row_ok d \<Longrightarrow> row_ok (fold (\<lambda>key. AList.update (Some key) CNone) ks d)"
  by (induction ks arbitrary: d) (auto intro: row_ok_update)

lemma row_ok_dict_reader_row: "row_ok (dict_reader_row fieldnames row)"
  by (auto simp: dict_reader_row_def Let_def
      intro!: row_ok_update row_ok_fold_cells row_ok_fold_missing row_ok_Nil)

lemma strip_Nil: "strip [] = []"
  by (simp add: strip_def)

text \<open>The loop over the cells of a reader's row never raises and records the numeric cells.\<close>

lemma record_cells_numeric:
  assumes "row_ok row"
  shows "record_cells to_float region_data row = Inr (region_data ++ numeric_cells to_float row)"
  using assms
proof (induction row arbitrary: region_data)
  case Nil
  have "numeric_cells to_float [] = Map.empty"
    by (rule ext) (simp add: numeric_cells_def)
  then show ?case by simp
next
  case (Cons item row)
  obtain k v where item: "item = (k, v)" by (cases item)
  have ok: "row_ok row" and fresh: "k \<notin> fst ` set row"
    and lst: "\<And>l. v = CRest l \<Longrightarrow> k = None"
    using Cons.prems by (auto simp: row_ok_def item)
  have other: "map_of row k = None"
    using fresh by (simp add: map_of_eq_None_iff)
  note IH = Cons.IH [OF ok]
  show ?case
  proof (cases k)
    case None
    have "numeric_cells to_float (item # row) = numeric_cells to_float row"
      by (rule ext) (simp add: numeric_cells_def item None)
    then show ?thesis by (simp add: item None IH)
  next
    case (Some region)
    show ?thesis
    proof (cases "\<exists>x. v = CStr x \<and> region \<noteq> [] \<and> strip x \<noteq> [] \<and> to_float x \<noteq> None")
      case True
      then obtain s x where v: "v = CStr s" and r: "region \<noteq> []" and s: "strip s \<noteq> []"
        and x: "to_float s = Some x" by auto
      have s': "s \<noteq> []" using s strip_Nil by auto
      have step: "record_cell to_float region_data item = Inr (region_data(region \<mapsto> x))"
        using r s s' x by (simp add: item Some v)
      have "region_data(region \<mapsto> x) ++ numeric_cells to_float row
          = region_data ++ numeric_cells to_float (item # row)"
      proof (rule ext)
        fix a
        show "(region_data(region \<mapsto> x) ++ numeric_cells to_float row) a
          = (region_data ++ numeric_cells to_float (item # row)) a"
          using other r s x
          by (auto simp: map_add_def numeric_cells_def item Some v split: option.splits)
      qed
      then show ?thesis
        by (simp only: record_cells.simps step sum.case IH)
    next
      case False
      have same: "numeric_cells to_float (item # row) = numeric_cells to_float row"
      proof (rule ext)
        fix a
        show "numeric_cells to_float (item # row) a = numeric_cells to_float row a"
          using other False
          by (cases v) (auto simp: numeric_cells_def item Some split: option.splits)
      qed
      have "record_cell to_float region_data item = Inr region_data"
        using False lst strip_Nil
        by (cases v) (auto simp: item Some split: option.splits)
      then show ?thesis by (simp add: IH same)
    qed
  qed
qed

section \<open>The loader row by row\<close>

lemma row_label_not_rest:
  assumes "row_ok row"
  shows "row_label row \<noteq> CRest l"
proof
  assume "row_label row = CRest l"
  then have "map_of row (Some []) = Some (CRest l)"
    by (auto simp: row_label_def split: option.splits)
  then have "(Some [], CRest l) \<in> set row" by (rule map_of_SomeD)
  then show False using assms by (auto simp: row_ok_def)
qed

lemma process_row_stored:
  assumes "row_ok row"
  shows "process_row to_float table row = Inr (stored_row to_float table row)"
proof -
  have cells: "record_cells to_float Map.empty row = Inr (numeric_cells to_float row)"
    using record_cells_numeric [OF assms, of to_float Map.empty] by simp
  show ?thesis
    using row_label_not_rest [OF assms]
    by (cases "row_label row") (auto simp: process_row_def cells stored_row_def)
qed

lemma process_rows_stored:
  assumes "\<forall>row \<in> set rows. row_ok row"
  shows "process_rows to_float table rows = Inr (foldl (stored_row to_float) table rows)"
  using assms
  by (induction rows arbitrary: table) (simp_all add: process_row_stored)

lemma dict_reader_ok: "\<forall>row \<in> set (dict_reader rows). row_ok row"
  by (cases rows) (auto simp: row_ok_dict_reader_row)

text \<open>The loader on a readable file: no message, no exit, and the table row by row.\<close>

lemma load_rows:
  "load_calibration_data to_float (Rows rows) =
     ([], Inr (foldl (stored_row to_float) Map.empty (dict_reader rows)))"
  by (simp add: load_calibration_data_def process_rows_stored [OF dict_reader_ok])

lemma stored_row_unlabelled:
  "row_label row = CNone \<or> row_label row = CStr [] \<Longrightarrow> stored_row to_float table row = table"
  by (auto simp: stored_row_def)

lemma dict_reader_append:
  "dict_reader (fieldnames # before @ after) =
     dict_reader (fieldnames # before) @ map (dict_reader_row fieldnames) (filter (\<lambda>row. row \<noteq> []) after)"
  by simp

lemma fold_cells_keys:
  "fst ` set (fold (\<lambda>(k, v). AList.update (Some k) (CStr v)) kvs d)
     \<subseteq> Some ` fst ` set kvs \<union> fst ` set d"
proof (induction kvs arbitrary: d)
  case Nil
  then show ?case by simp
next
  case (Cons p kvs)
  obtain k v where p: "p = (k, v)" by (cases p)
  have "fst ` set (AList.update (Some k) (CStr v) d) = {Some k} \<union> fst ` set d"
    by (rule dom_update)
  with Cons.IH [of "AList.update (Some k) (CStr v) d"] show ?case
    by (auto simp: p)
qed

lemma fold_missing_keys:
  "fst ` set (fold (\<lambda>key. AList.update (Some key) CNone) ks d) \<subseteq> Some ` set ks \<union> fst ` set d"
proof (induction ks arbitrary: d)
  case Nil
  then show ?case by simp
next
  case (Cons k ks)
  have "fst ` set (AList.update (Some k) CNone d) = {Some k} \<union> fst ` set d"
    by (rule dom_update)
  with Cons.IH [of "AList.update (Some k) CNone d"] show ?case
    by auto
qed

lemma dict_reader_row_keys:
  "fst ` set (dict_reader_row fieldnames row) \<subseteq> insert None (Some ` set fieldnames)"
proof -
  have zip: "fst ` set (zip fieldnames row) \<subseteq> set fieldnames"
    by (auto dest: set_zip_leftD)
  have drop: "set (drop n fieldnames) \<subseteq> set fieldnames" for n
    by (rule set_drop_subset)
  have cells: "fst ` set (fold (\<lambda>(k, v). AList.update (Some k) (CStr v)) (zip fieldnames row) [])
      \<subseteq> Some ` set fieldnames"
    using fold_cells_keys [of "zip fieldnames row" "[]"] zip by auto
  have missing: "fst ` set (fold (\<lambda>key. AList.update (Some key) CNone)
        (drop (length row) fieldnames)
        (fold (\<lambda>(k, v). AList.update (Some k) (CStr v)) (zip fieldnames row) []))
      \<subseteq> Some ` set fieldnames"
    using cells fold_missing_keys [of "drop (length row) fieldnames"
        "fold (\<lambda>(k, v). AList.update (Some k) (CStr v)) (zip fieldnames row) []"]
      drop [of "length row"]
    by blast
  show ?thesis
    unfolding dict_reader_row_def Let_def
    using cells missing by (simp add: dom_update) blast
qed

lemma no_label_column:
  assumes "[] \<notin> set fieldnames"
  shows "row_label (dict_reader_row fieldnames row) = CStr []"
proof -
  have "Some [] \<notin> fst ` set (dict_reader_row fieldnames row)"
    using dict_reader_row_keys [of fieldnames row] assms by auto
  then have "map_of (dict_reader_row fieldnames row) (Some []) = None"
    by (simp add: map_of_eq_None_iff)
  then show ?thesis by (simp add: row_label_def)
qed

text \<open>The definitions a closed example of the loader unfolds.\<close>

lemmas loader_eval = load_calibration_data_def dict_reader_row_def process_row_def
  row_label_def strip_def py_isspace_def decimal_float_def digit_val_def Let_def

text \<open>
  Claim C8. A data row whose label cell is empty or missing (the label the code reads is
  the empty string or \<^verbatim>\<open>None\<close>) adds nothing to the table: loading the file with the
  row gives what loading it without the row gives, whatever the row's other cells hold.
\<close>

theorem unlabelled_row_is_dropped:
  assumes "row_label (dict_reader_row fieldnames row) = CNone
         \<or> row_label (dict_reader_row fieldnames row) = CStr []"
  shows "load_calibration_data to_float (Rows (fieldnames # before @ row # after)) =
         load_calibration_data to_float (Rows (fieldnames # before @ after))"
  using assms by (simp add: load_rows stored_row_unlabelled)

theorem unlabelled_row_is_dropped_witness:
  "(row_label (dict_reader_row ['''', ''A'', ''B''] ['''', ''5'', ''6'']) = CNone
    \<or> row_label (dict_reader_row ['''', ''A'', ''B''] ['''', ''5'', ''6'']) = CStr [])
   \<and> load_calibration_data decimal_float
        (Rows (['''', ''A'', ''B''] # [[''full_fill_percent'', ''1'', ''2'']] @ ['''', ''5'', ''6''] # []))
     = load_calibration_data decimal_float
        (Rows (['''', ''A'', ''B''] # [[''full_fill_percent'', ''1'', ''2'']] @ []))
   \<and> load_calibration_data decimal_float
        (Rows (['''', ''A'', ''B''] # [[''full_fill_percent'', ''1'', ''2'']] @ []))
     = ([], Inr [''full_fill_percent'' \<mapsto> [''A'' \<mapsto> 1, ''B'' \<mapsto> 2]])"
proof -
  have label: "row_label (dict_reader_row ['''', ''A'', ''B''] ['''', ''5'', ''6'']) = CNone
    \<or> row_label (dict_reader_row ['''', ''A'', ''B''] ['''', ''5'', ''6'']) = CStr []"
    by (simp add: loader_eval)
  have without: "load_calibration_data decimal_float
        (Rows (['''', ''A'', ''B''] # [[''full_fill_percent'', ''1'', ''2'']] @ []))
     = ([], Inr [''full_fill_percent'' \<mapsto> [''A'' \<mapsto> 1, ''B'' \<mapsto> 2]])"
    by (simp add: loader_eval)
  from unlabelled_row_is_dropped [OF label, of decimal_float "[[''full_fill_percent'', ''1'', ''2'']]" "[]"]
    label without
  show ?thesis by simp
qed

section \<open>The label column\<close>

text \<open>With an empty table the merge changes nothing.\<close>

lemma update_field_empty: "update_field Map.empty rn rc f = ([], Inr rc)"
  by (simp add: update_field_def)

lemma update_region_empty: "update_region Map.empty rn rc fs = ([], Inr rc)"
  by (induction fs) (simp_all add: update_field_empty)

lemma update_regions_empty: "update_regions Map.empty fs entries = ([], Inr entries)"
  by (induction entries) (auto simp: update_region_empty)

lemma merge_empty_table_out:
  "set (fst (update_config_with_calibration config Map.empty selector)) \<subseteq> {WarnNoRegions}"
  by (auto simp: update_config_with_calibration_def Let_def update_regions_empty
      split: sum.splits bool.splits)

lemma stored_row_no_empty_region:
  assumes "\<And>field by_region. table field = Some by_region \<Longrightarrow> by_region [] = None"
    and "stored_row to_float table row field = Some by_region"
  shows "by_region [] = None"
  using assms
  by (auto simp: stored_row_def numeric_cells_def split: cell.splits if_splits)

lemma stored_rows_no_empty_region:
  assumes "\<And>field by_region. table field = Some by_region \<Longrightarrow> by_region [] = None"
    and "foldl (stored_row to_float) table rows field = Some by_region"
  shows "by_region [] = None"
  using assms
proof (induction rows arbitrary: table)
  case Nil
  then show ?case by simp
next
  case (Cons row rows)
  show ?case
  proof (rule Cons.IH [of "stored_row to_float table row"])
    show "by_region' [] = None" if "stored_row to_float table row field' = Some by_region'"
      for field' by_region'
      using stored_row_no_empty_region [of table to_float row field' by_region'] Cons.prems(1) that
      by blast
    show "foldl (stored_row to_float) (stored_row to_float table row) rows field = Some by_region"
      using Cons.prems(2) by simp
  qed
qed

lemma stored_rows_unlabelled:
  "\<forall>row \<in> set rows. row_label row = CStr [] \<Longrightarrow> foldl (stored_row to_float) table rows = table"
  by (induction rows arbitrary: table) (simp_all add: stored_row_unlabelled)

text \<open>
  Claim C10. The label column is the column whose header is the empty string. When the
  header row has no such column, the label of every row reads as the empty string, the
  loader returns the empty table, and a merge with that table records no change, whatever
  the document and the selector. And in any table the loader returns, the empty string is
  never a region key of a field's mapping.
\<close>

theorem label_column_is_the_empty_header:
  "([] \<notin> set fieldnames \<longrightarrow>
      row_label (dict_reader_row fieldnames row) = CStr []
      \<and> load_calibration_data to_float (Rows (fieldnames # rows)) = ([], Inr Map.empty)
      \<and> Updated region field old_value new_value
           \<notin> set (fst (update_config_with_calibration config Map.empty selector)))
   \<and> (load_calibration_data to_float calibration_file = (out, Inr table)
        \<longrightarrow> table label = Some by_region \<longrightarrow> by_region [] = None)"
proof (intro conjI impI)
  assume no: "[] \<notin> set fieldnames"
  show "row_label (dict_reader_row fieldnames row) = CStr []"
    using no by (rule no_label_column)
  have "\<forall>r \<in> set (dict_reader (fieldnames # rows)). row_label r = CStr []"
    using no by (auto simp: no_label_column)
  then show "load_calibration_data to_float (Rows (fieldnames # rows)) = ([], Inr Map.empty)"
    by (simp only: load_rows stored_rows_unlabelled)
next
  show "Updated region field old_value new_value
           \<notin> set (fst (update_config_with_calibration config Map.empty selector))"
    using merge_empty_table_out [of config selector] by auto
next
  assume load: "load_calibration_data to_float calibration_file = (out, Inr table)"
    and entry: "table label = Some by_region"
  show "by_region [] = None"
  proof (cases calibration_file)
    case Unreadable
    then show ?thesis using load by (simp add: load_calibration_data_def)
  next
    case (Rows rows)
    then have "table = foldl (stored_row to_float) Map.empty (dict_reader rows)"
      using load by (simp add: load_rows)
    then show ?thesis
      using stored_rows_no_empty_region [of Map.empty to_float "dict_reader rows" label by_region]
        entry
      by simp
  qed
qed

theorem label_column_is_the_empty_header_witness:
  "[] \<notin> set [''field'', ''A'', ''B'']
   \<and> row_label (dict_reader_row [''field'', ''A'', ''B''] [''full_fill_percent'', ''1'', ''2'']) = CStr []
   \<and> load_calibration_data decimal_float
        (Rows ([''field'', ''A'', ''B''] # [[''full_fill_percent'', ''1'', ''2'']])) = ([], Inr Map.empty)
   \<and> Updated ''A'' ''full_fill_percent'' (JInt 10) 1
        \<notin> set (fst (update_config_with_calibration
              (JObj [(''regions'', JObj [(''A'', JObj [(''full_fill_percent'', JInt 10)])])])
              Map.empty [''full_fill_percent'']))
   \<and> load_calibration_data decimal_float
        (Rows (['''', ''A'', ''''] # [[''x'', ''1'', ''full_fill_percent'']]))
       = ([], Inr [''full_fill_percent'' \<mapsto> [''A'' \<mapsto> 1]])
   \<and> [''full_fill_percent'' \<mapsto> [''A'' \<mapsto> (1::int)]] ''full_fill_percent'' = Some [''A'' \<mapsto> 1]
   \<and> [''A'' \<mapsto> (1::int)] [] = None"
proof -
  note claim = label_column_is_the_empty_header
    [of "[''field'', ''A'', ''B'']" "[''full_fill_percent'', ''1'', ''2'']" decimal_float
        "[[''full_fill_percent'', ''1'', ''2'']]" "''A''" "''full_fill_percent''" "JInt 10" 1
        "JObj [(''regions'', JObj [(''A'', JObj [(''full_fill_percent'', JInt 10)])])]"
        "[''full_fill_percent'']"
        "Rows (['''', ''A'', ''''] # [[''x'', ''1'', ''full_fill_percent'']])" "[]"
        "[''full_fill_percent'' \<mapsto> [''A'' \<mapsto> 1]]" "''full_fill_percent''" "[''A'' \<mapsto> 1]"]
  have no: "[] \<notin> set [''field'', ''A'', ''B'']" by simp
  have load: "load_calibration_data decimal_float
        (Rows (['''', ''A'', ''''] # [[''x'', ''1'', ''full_fill_percent'']]))
       = ([], Inr [''full_fill_percent'' \<mapsto> [''A'' \<mapsto> 1]])"
    by (simp add: loader_eval)
  have entry: "[''full_fill_percent'' \<mapsto> [''A'' \<mapsto> (1::int)]] ''full_fill_percent'' = Some [''A'' \<mapsto> 1]"
    by simp
  from claim no have first:
    "row_label (dict_reader_row [''field'', ''A'', ''B''] [''full_fill_percent'', ''1'', ''2'']) = CStr []
     \<and> load_calibration_data decimal_float
        (Rows ([''field'', ''A'', ''B''] # [[''full_fill_percent'', ''1'', ''2'']])) = ([], Inr Map.empty)
     \<and> Updated ''A'' ''full_fill_percent'' (JInt 10) 1
        \<notin> set (fst (update_config_with_calibration
              (JObj [(''regions'', JObj [(''A'', JObj [(''full_fill_percent'', JInt 10)])])])
              Map.empty [''full_fill_percent'']))"
    by (rule conjunct1 [THEN mp])
  from claim [THEN conjunct2, THEN mp, OF load, THEN mp, OF entry]
  have second: "[''A'' \<mapsto> (1::int)] [] = None" .
  from no first load entry second show ?thesis by blast
qed

section \<open>Rows with the same label\<close>

lemma stored_rows_other:
  "\<forall>row \<in> set rows. row_label row \<noteq> CStr label
    \<Longrightarrow> foldl (stored_row to_float) table rows label = table label"
proof (induction rows arbitrary: table)
  case Nil
  then show ?case by simp
next
  case (Cons row rows)
  have "stored_row to_float table row label = table label"
    using Cons.prems by (auto simp: stored_row_def split: cell.splits)
  with Cons show ?case by simp
qed

text \<open>
  Claim C6 says that the cells of a row are recorded one by one under a key that later
  rows with the same label reuse, so that a value of an earlier row stays when the later
  row's cell for that region is empty. The code builds a fresh mapping for each row and
  assigns it to the label: here the first row gives region \<^verbatim>\<open>A\<close> the value 10, the
  second row has the same label and an empty cell for \<^verbatim>\<open>A\<close>, and the table that
  results has no value for \<^verbatim>\<open>A\<close>.
\<close>

theorem same_label_rows_counterexample:
  "load_calibration_data decimal_float
     (Rows [['''', ''A'', ''B''],
            [''full_fill_percent'', ''10'', ''20''],
            [''full_fill_percent'', '''', ''30'']])
   = ([], Inr [''full_fill_percent'' \<mapsto> [''B'' \<mapsto> 30]])"
  by (simp add: loader_eval)

text \<open>
  Claim C6, amended. A data row with a non-empty label sets the table's entry for the label
  to the mapping of exactly that row's numeric cells, replacing what an earlier row with
  the same label stored: the entry the loader returns for a label is the mapping of the
  last row that carries the label.
\<close>

theorem later_row_replaces_earlier:
  assumes "row \<noteq> []"
    and "row_label (dict_reader_row fieldnames row) = CStr label"
    and "label \<noteq> []"
    and "\<forall>r \<in> set after. r \<noteq> [] \<longrightarrow> row_label (dict_reader_row fieldnames r) \<noteq> CStr label"
  shows "\<exists>table.
           load_calibration_data to_float (Rows (fieldnames # before @ row # after)) = ([], Inr table)
         \<and> table label = Some (numeric_cells to_float (dict_reader_row fieldnames row))"
proof -
  let ?rest = "map (dict_reader_row fieldnames) (filter (\<lambda>r. r \<noteq> []) after)"
  let ?first = "foldl (stored_row to_float) Map.empty (dict_reader (fieldnames # before))"
  have rest: "\<forall>r \<in> set ?rest. row_label r \<noteq> CStr label"
    using assms(4) by auto
  have here: "stored_row to_float ?first (dict_reader_row fieldnames row) label
      = Some (numeric_cells to_float (dict_reader_row fieldnames row))"
    using assms(2,3) by (simp add: stored_row_def)
  have "foldl (stored_row to_float) Map.empty (dict_reader (fieldnames # before @ row # after)) label
      = Some (numeric_cells to_float (dict_reader_row fieldnames row))"
    using assms(1) stored_rows_other [OF rest, of to_float] here by simp
  then show ?thesis by (simp only: load_rows) blast
qed

theorem later_row_replaces_earlier_witness:
  "[''full_fill_percent'', '' '', ''30'', ''N/A''] \<noteq> []
   \<and> row_label (dict_reader_row ['''', ''A'', ''B'', ''C''] [''full_fill_percent'', '' '', ''30'', ''N/A''])
       = CStr ''full_fill_percent''
   \<and> ''full_fill_percent'' \<noteq> []
   \<and> row_label (dict_reader_row ['''', ''A'', ''B'', ''C''] [''empty_fill_percent'', ''1'', ''2'', ''3''])
       \<noteq> CStr ''full_fill_percent''
   \<and> (\<exists>table.
         load_calibration_data decimal_float
           (Rows (['''', ''A'', ''B'', ''C''] # [[''full_fill_percent'', ''10'', ''20'', ''40'']]
              @ [''full_fill_percent'', '' '', ''30'', ''N/A''] # [[''empty_fill_percent'', ''1'', ''2'', ''3'']]))
           = ([], Inr table)
       \<and> table ''full_fill_percent''
           = Some (numeric_cells decimal_float
               (dict_reader_row ['''', ''A'', ''B'', ''C''] [''full_fill_percent'', '' '', ''30'', ''N/A''])))
   \<and> numeric_cells decimal_float
        (dict_reader_row ['''', ''A'', ''B'', ''C''] [''full_fill_percent'', '' '', ''30'', ''N/A'']) ''A'' = None
   \<and> numeric_cells decimal_float
        (dict_reader_row ['''', ''A'', ''B'', ''C''] [''full_fill_percent'', '' '', ''30'', ''N/A'']) ''B'' = Some 30
   \<and> numeric_cells decimal_float
        (dict_reader_row ['''', ''A'', ''B'', ''C''] [''full_fill_percent'', '' '', ''30'', ''N/A'']) ''C'' = None"
proof -
  have h1: "[''full_fill_percent'', '' '', ''30'', ''N/A''] \<noteq> []" by simp
  have h2: "row_label (dict_reader_row ['''', ''A'', ''B'', ''C''] [''full_fill_percent'', '' '', ''30'', ''N/A''])
       = CStr ''full_fill_percent''"
    by (simp add: loader_eval)
  have h3: "''full_fill_percent'' \<noteq> []" by simp
  have h4: "\<forall>r \<in> set [[''empty_fill_percent'', ''1'', ''2'', ''3'']]. r \<noteq> [] \<longrightarrow>
         row_label (dict_reader_row ['''', ''A'', ''B'', ''C''] r) \<noteq> CStr ''full_fill_percent''"
    by (simp add: loader_eval)
  have cells:
    "numeric_cells decimal_float
        (dict_reader_row ['''', ''A'', ''B'', ''C''] [''full_fill_percent'', '' '', ''30'', ''N/A'']) ''A'' = None"
    "numeric_cells decimal_float
        (dict_reader_row ['''', ''A'', ''B'', ''C''] [''full_fill_percent'', '' '', ''30'', ''N/A'']) ''B'' = Some 30"
    "numeric_cells decimal_float
        (dict_reader_row ['''', ''A'', ''B'', ''C''] [''full_fill_percent'', '' '', ''30'', ''N/A'']) ''C'' = None"
    by (simp_all add: numeric_cells_def loader_eval)
  have other: "row_label (dict_reader_row ['''', ''A'', ''B'', ''C''] [''empty_fill_percent'', ''1'', ''2'', ''3''])
       \<noteq> CStr ''full_fill_percent''"
    by (simp add: loader_eval)
  from later_row_replaces_earlier [OF h1 h2 h3 h4, of decimal_float "[[''full_fill_percent'', ''10'', ''20'', ''40'']]"]
    h1 h2 h3 other cells
  show ?thesis by blast
qed

section \<open>What is logged\<close>

lemma spec_step_out:
  assumes "ev \<in> set (fst (spec_step table rn kvs f))"
  shows "(\<exists>old new. ev = Updated rn f old new)
       \<or> (ev = WarnFieldNotFound f rn
           \<and> (\<exists>by_region x. table f = Some by_region \<and> by_region rn = Some x)
           \<and> f \<notin> fst ` set kvs)"
  using assms
  by (auto simp: spec_step_def key_in_iff split: option.splits)

lemma spec_step_warns:
  assumes "table f = Some by_region" "by_region rn = Some x" "f \<notin> fst ` set kvs"
  shows "fst (spec_step table rn kvs f) = [WarnFieldNotFound f rn]"
  using assms by (simp add: spec_step_def key_in_iff)

lemma spec_step_key_set: "fst ` set (snd (spec_step table rn kvs f)) = fst ` set kvs"
  using spec_step_keys [of table rn kvs f] by (metis set_map)

lemma spec_fields_out:
  assumes "ev \<in> set (fst (spec_fields table rn kvs fs))"
  shows "(\<exists>f old new. ev = Updated rn f old new)
       \<or> (\<exists>f. ev = WarnFieldNotFound f rn \<and> f \<in> set fs
           \<and> (\<exists>by_region x. table f = Some by_region \<and> by_region rn = Some x)
           \<and> f \<notin> fst ` set kvs)"
  using assms
proof (induction fs arbitrary: kvs)
  case Nil
  then show ?case by simp
next
  case (Cons g gs)
  obtain out kvs' where step: "spec_step table rn kvs g = (out, kvs')"
    by (cases "spec_step table rn kvs g")
  have keys: "fst ` set kvs' = fst ` set kvs"
    using spec_step_key_set [of table rn kvs g] step by simp
  from Cons.prems step consider
    "ev \<in> set (fst (spec_step table rn kvs g))" | "ev \<in> set (fst (spec_fields table rn kvs' gs))"
    by (auto split: prod.splits)
  then show ?case
  proof cases
    case 1
    from spec_step_out [OF this] show ?thesis by auto
  next
    case 2
    from Cons.IH [OF this] show ?thesis by (auto simp: keys)
  qed
qed

lemma spec_fields_warns:
  assumes "table f = Some by_region" "by_region rn = Some x"
  shows "f \<in> set fs \<Longrightarrow> f \<notin> fst ` set kvs
    \<Longrightarrow> WarnFieldNotFound f rn \<in> set (fst (spec_fields table rn kvs fs))"
proof (induction fs arbitrary: kvs)
  case Nil
  then show ?case by simp
next
  case (Cons g gs)
  obtain out kvs' where step: "spec_step table rn kvs g = (out, kvs')"
    by (cases "spec_step table rn kvs g")
  have keys: "fst ` set kvs' = fst ` set kvs"
    using spec_step_key_set [of table rn kvs g] step by simp
  show ?case
  proof (cases "g = f")
    case True
    have "out = [WarnFieldNotFound f rn]"
      using spec_step_warns [of table f by_region rn x kvs] assms Cons.prems(2) step True by simp
    then show ?thesis using step by (auto split: prod.splits)
  next
    case False
    then have "f \<in> set gs" using Cons.prems(1) by simp
    from Cons.IH [OF this, of kvs'] Cons.prems(2) keys step show ?thesis
      by (auto split: prod.splits)
  qed
qed

lemma spec_regions_out:
  assumes "ev \<in> set (fst (spec_regions table fs regions))"
  shows "(\<exists>rn f old new. ev = Updated rn f old new)
       \<or> (\<exists>f rn kvs. ev = WarnFieldNotFound f rn \<and> f \<in> set fs
           \<and> (\<exists>by_region x. table f = Some by_region \<and> by_region rn = Some x)
           \<and> (rn, kvs) \<in> set regions \<and> f \<notin> fst ` set kvs)"
  using assms
proof (induction regions)
  case Nil
  then show ?case by simp
next
  case (Cons r regions)
  obtain rn kvs where r: "r = (rn, kvs)" by (cases r)
  from Cons.prems consider
    "ev \<in> set (fst (spec_fields table rn kvs fs))" | "ev \<in> set (fst (spec_regions table fs regions))"
    by (auto simp: r split: prod.splits)
  then show ?case
  proof cases
    case 1
    from spec_fields_out [OF this] show ?thesis by (auto simp: r)
  next
    case 2
    from Cons.IH [OF this] show ?thesis by auto
  qed
qed

lemma spec_regions_warns:
  assumes "table f = Some by_region" "by_region rn = Some x" "f \<in> set fs"
    "(rn, kvs) \<in> set regions" "f \<notin> fst ` set kvs"
  shows "WarnFieldNotFound f rn \<in> set (fst (spec_regions table fs regions))"
  using assms(4)
proof (induction regions)
  case Nil
  then show ?case by simp
next
  case (Cons r regions)
  show ?case
  proof (cases "r = (rn, kvs)")
    case True
    have "WarnFieldNotFound f rn \<in> set (fst (spec_fields table rn kvs fs))"
      using spec_fields_warns [of table f by_region rn x fs kvs] assms by simp
    then show ?thesis by (auto simp: True split: prod.splits)
  next
    case False
    then have "(rn, kvs) \<in> set regions" using Cons.prems by simp
    from Cons.IH [OF this] show ?thesis
      by (cases r) (auto split: prod.splits)
  qed
qed

text \<open>
  Claim C7 says that each of the four kinds of skip is logged as a warning. Here a cell
  that is not a number is skipped by the loader, which prints nothing; the merge then
  skips a field that the table lacks and a region that the field's mapping lacks, and
  prints nothing either.
\<close>

theorem policy_skips_counterexample:
  "load_calibration_data decimal_float (Rows [['''', ''A''], [''full_fill_percent'', ''N/A'']])
     = ([], Inr [''full_fill_percent'' \<mapsto> Map.empty])
   \<and> update_config_with_calibration
       (JObj [(''regions'', JObj [(''A'', JObj [(''full_fill_percent'', JInt 10)])])])
       [''full_fill_percent'' \<mapsto> (Map.empty :: string \<rightharpoonup> int)]
       [''full_fill_percent'', ''brightness_threshold'']
     = ([], Inr (JObj [(''regions'', JObj [(''A'', JObj [(''full_fill_percent'', JInt 10)])])]))"
  by (simp add: loader_eval update_config_with_calibration_def update_field_def)

text \<open>
  Claim C7, amended. None of the four skips ends the run, and only one of them is logged.
  The loader on a readable file prints nothing and returns a table, whatever the cells
  hold. On a document whose regions are mappings the merge returns normally; it prints
  change records and warnings for fields missing from a region's configuration, and no
  other message; and each selected field with a table value for a region whose
  configuration lacks the field gets its warning.
\<close>

theorem policy_skips:
  "fst (load_calibration_data to_float (Rows rows)) = []
   \<and> (\<exists>loaded. snd (load_calibration_data to_float (Rows rows)) = Inr loaded)
   \<and> (map_of top_level ''regions'' = Some (regions_value regions) \<longrightarrow>
        (\<exists>out config'.
           update_config_with_calibration (JObj top_level) table selector = (out, Inr config')
         \<and> (\<forall>ev \<in> set out.
               (\<exists>region_name field old_value new_value.
                   ev = Updated region_name field old_value new_value)
             \<or> (\<exists>field region_name region_config.
                   ev = WarnFieldNotFound field region_name
                 \<and> field \<in> set selector
                 \<and> (\<exists>by_region x. table field = Some by_region \<and> by_region region_name = Some x)
                 \<and> (region_name, region_config) \<in> set regions
                 \<and> field \<notin> fst ` set region_config))
         \<and> (\<forall>field region_name region_config by_region x.
               field \<in> set selector \<and> table field = Some by_region
               \<and> by_region region_name = Some x
               \<and> (region_name, region_config) \<in> set regions
               \<and> field \<notin> fst ` set region_config
               \<longrightarrow> WarnFieldNotFound field region_name \<in> set out)))"
proof (intro conjI impI)
  show "fst (load_calibration_data to_float (Rows rows)) = []"
    by (simp add: load_rows)
  show "\<exists>loaded. snd (load_calibration_data to_float (Rows rows)) = Inr loaded"
    by (simp add: load_rows)
next
  assume regions: "map_of top_level ''regions'' = Some (regions_value regions)"
  let ?out = "fst (spec_regions table selector regions)"
  have run: "update_config_with_calibration (JObj top_level) table selector =
      (?out, Inr (JObj (AList.update ''regions''
             (regions_value (snd (spec_regions table selector regions))) top_level)))"
    using regions by (simp add: update_config_obj regions_value_def update_regions_spec)
  have only: "\<forall>ev \<in> set ?out.
               (\<exists>region_name field old_value new_value.
                   ev = Updated region_name field old_value new_value)
             \<or> (\<exists>field region_name region_config.
                   ev = WarnFieldNotFound field region_name
                 \<and> field \<in> set selector
                 \<and> (\<exists>by_region x. table field = Some by_region \<and> by_region region_name = Some x)
                 \<and> (region_name, region_config) \<in> set regions
                 \<and> field \<notin> fst ` set region_config)"
    using spec_regions_out [of _ table selector regions] by blast
  have every: "\<forall>field region_name region_config by_region x.
               field \<in> set selector \<and> table field = Some by_region
               \<and> by_region region_name = Some x
               \<and> (region_name, region_config) \<in> set regions
               \<and> field \<notin> fst ` set region_config
               \<longrightarrow> WarnFieldNotFound field region_name \<in> set ?out"
    using spec_regions_warns [of table _ _ _ _ selector _ regions] by blast
  from run only every
  show "\<exists>out config'.
           update_config_with_calibration (JObj top_level) table selector = (out, Inr config')
         \<and> (\<forall>ev \<in> set out.
               (\<exists>region_name field old_value new_value.
                   ev = Updated region_name field old_value new_value)
             \<or> (\<exists>field region_name region_config.
                   ev = WarnFieldNotFound field region_name
                 \<and> field \<in> set selector
                 \<and> (\<exists>by_region x. table field = Some by_region \<and> by_region region_name = Some x)
                 \<and> (region_name, region_config) \<in> set regions
                 \<and> field \<notin> fst ` set region_config))
         \<and> (\<forall>field region_name region_config by_region x.
               field \<in> set selector \<and> table field = Some by_region
               \<and> by_region region_name = Some x
               \<and> (region_name, region_config) \<in> set regions
               \<and> field \<notin> fst ` set region_config
               \<longrightarrow> WarnFieldNotFound field region_name \<in> set out)"
    by blast
qed

theorem policy_skips_witness:
  "map_of [(''regions'', JObj [(''A'', JObj [(''x'', JInt 1)])])] ''regions''
     = Some (regions_value [(''A'', [(''x'', JInt 1)])])
   \<and> fst (load_calibration_data decimal_float (Rows [['''', ''A''], [''full_fill_percent'', ''N/A'']])) = []
   \<and> ''full_fill_percent'' \<in> set [''full_fill_percent'']
   \<and> (''A'', [(''x'', JInt 1)]) \<in> set [(''A'', [(''x'', JInt 1)])]
   \<and> ''full_fill_percent'' \<notin> fst ` set [(''x'', JInt (1::int))]
   \<and> WarnFieldNotFound ''full_fill_percent'' ''A''
       \<in> set (fst (update_config_with_calibration
             (JObj [(''regions'', JObj [(''A'', JObj [(''x'', JInt 1)])])])
             [''full_fill_percent'' \<mapsto> [''A'' \<mapsto> (5::int)]] [''full_fill_percent'']))"
proof -
  note claim = policy_skips
    [of decimal_float "[['''', ''A''], [''full_fill_percent'', ''N/A'']]"
        "[(''regions'', JObj [(''A'', JObj [(''x'', JInt 1)])])]"
        "[(''A'', [(''x'', JInt 1)])]"
        "[''full_fill_percent'' \<mapsto> [''A'' \<mapsto> (5::int)]]" "[''full_fill_percent'']"]
  have regions: "map_of [(''regions'', JObj [(''A'', JObj [(''x'', JInt 1)])])] ''regions''
     = Some (regions_value [(''A'', [(''x'', JInt (1::int))])])"
    by (simp add: regions_value_def)
  have sel: "''full_fill_percent'' \<in> set [''full_fill_percent'']" by simp
  have reg: "(''A'', [(''x'', JInt (1::int))]) \<in> set [(''A'', [(''x'', JInt 1)])]" by simp
  have key: "''full_fill_percent'' \<notin> fst ` set [(''x'', JInt (1::int))]" by simp
  have tab: "[''full_fill_percent'' \<mapsto> [''A'' \<mapsto> (5::int)]] ''full_fill_percent'' = Some [''A'' \<mapsto> 5]"
    "[''A'' \<mapsto> (5::int)] ''A'' = Some 5" by simp_all
  from claim have quiet:
    "fst (load_calibration_data decimal_float (Rows [['''', ''A''], [''full_fill_percent'', ''N/A'']])) = []"
    by (rule conjunct1)
  have "WarnFieldNotFound ''full_fill_percent'' ''A''
       \<in> set (fst (update_config_with_calibration
             (JObj [(''regions'', JObj [(''A'', JObj [(''x'', JInt 1)])])])
             [''full_fill_percent'' \<mapsto> [''A'' \<mapsto> (5::int)]] [''full_fill_percent'']))"
    using claim [THEN conjunct2, THEN conjunct2, THEN mp, OF regions]
  proof (elim exE conjE)
    fix out config'
    assume run: "update_config_with_calibration
             (JObj [(''regions'', JObj [(''A'', JObj [(''x'', JInt 1)])])])
             [''full_fill_percent'' \<mapsto> [''A'' \<mapsto> (5::int)]] [''full_fill_percent''] = (out, Inr config')"
    and every: "\<forall>field region_name region_config by_region x.
               field \<in> set [''full_fill_percent'']
               \<and> [''full_fill_percent'' \<mapsto> [''A'' \<mapsto> (5::int)]] field = Some by_region
               \<and> by_region region_name = Some x
               \<and> (region_name, region_config) \<in> set [(''A'', [(''x'', JInt 1)])]
               \<and> field \<notin> fst ` set region_config
               \<longrightarrow> WarnFieldNotFound field region_name \<in> set out"
    have "WarnFieldNotFound ''full_fill_percent'' ''A'' \<in> set out"
      by (rule every [rule_format, of "''full_fill_percent''" "[''A'' \<mapsto> 5]" "''A''" 5
            "[(''x'', JInt 1)]"])
         (intro conjI sel reg key tab)
    with run show ?thesis by simp
  qed
  with regions quiet sel reg key show ?thesis by (intro conjI)
qed

section \<open>Documents of another shape\<close>

text \<open>Every exception of the loops is a \<^verbatim>\<open>TypeError\<close>, raised before anything is printed for the step.\<close>

lemma update_field_raises_TypeError:
  "update_field table rn rc f = (out, Inl e) \<Longrightarrow> e = TypeError \<and> out = []"
  by (cases rc)
     (auto simp: update_field_def key_in_iff split: option.splits sum.splits bool.splits)

lemma update_region_raises_TypeError:
  "update_region table rn rc fs = (out, Inl e) \<Longrightarrow> e = TypeError"
proof (induction fs arbitrary: rc out)
  case Nil
  then show ?case by simp
next
  case (Cons f fs)
  then show ?case
    by (auto split: prod.splits sum.splits dest: update_field_raises_TypeError)
qed

lemma update_regions_raises_TypeError:
  "update_regions table fs entries = (out, Inl e) \<Longrightarrow> e = TypeError"
proof (induction entries arbitrary: out)
  case Nil
  then show ?case by simp
next
  case (Cons p entries)
  then show ?case
    by (cases p) (auto split: prod.splits sum.splits dest: update_region_raises_TypeError)
qed










section \<open>The store: the copy and the original\<close>

lemma val_above_mono: "val_above n v \<Longrightarrow> m \<le> n \<Longrightarrow> val_above m v"
  by (cases v) auto

text \<open>The parser only appends, and what it appends refers to what it appends.\<close>

lemma loads_appends:
  "loads h t = (h', v) \<Longrightarrow>
     \<exists>ext. h' = h @ ext \<and> val_above (length h) v
       \<and> (\<forall>ob \<in> set ext. \<forall>w \<in> set (vals_of ob). val_above (length h) w)"
  "loads_list h ts = (h', vs) \<Longrightarrow>
     \<exists>ext. h' = h @ ext \<and> (\<forall>w \<in> set vs. val_above (length h) w)
       \<and> (\<forall>ob \<in> set ext. \<forall>w \<in> set (vals_of ob). val_above (length h) w)"
  "loads_items h kts = (h', kvs) \<Longrightarrow>
     \<exists>ext. h' = h @ ext \<and> (\<forall>w \<in> set (map snd kvs). val_above (length h) w)
       \<and> (\<forall>ob \<in> set ext. \<forall>w \<in> set (vals_of ob). val_above (length h) w)"
proof (induction h t and h ts and h kts arbitrary: h' v and h' vs and h' kvs
    rule: loads_loads_list_loads_items.induct)
  case (6 h xs)
  obtain h1 ws where l: "loads_list h xs = (h1, ws)" by (cases "loads_list h xs")
  from "6.IH" [OF l] obtain ext where
    ext: "h1 = h @ ext" "\<forall>w \<in> set ws. val_above (length h) w"
      "\<forall>ob \<in> set ext. \<forall>w \<in> set (vals_of ob). val_above (length h) w"
    by blast
  have "h' = h @ (ext @ [PList ws])" "v = PRef (length h1)"
    using "6.prems" l ext(1) by auto
  then show ?case using ext by (intro exI [of _ "ext @ [PList ws]"]) auto
next
  case (7 h kts)
  obtain h1 kws where l: "loads_items h kts = (h1, kws)" by (cases "loads_items h kts")
  from "7.IH" [OF l] obtain ext where
    ext: "h1 = h @ ext" "\<forall>w \<in> set (map snd kws). val_above (length h) w"
      "\<forall>ob \<in> set ext. \<forall>w \<in> set (vals_of ob). val_above (length h) w"
    by blast
  have "h' = h @ (ext @ [PDict kws])" "v = PRef (length h1)"
    using "7.prems" l ext(1) by auto
  then show ?case using ext by (intro exI [of _ "ext @ [PDict kws]"]) auto
next
  case (9 h x xs)
  obtain h1 w where l1: "loads h x = (h1, w)" by (cases "loads h x")
  obtain h2 ws where l2: "loads_list h1 xs = (h2, ws)" by (cases "loads_list h1 xs")
  from "9.IH"(1) [OF l1] obtain e1 where
    e1: "h1 = h @ e1" "val_above (length h) w"
      "\<forall>ob \<in> set e1. \<forall>w \<in> set (vals_of ob). val_above (length h) w"
    by blast
  from "9.IH"(2) [OF l1 [symmetric] l2] obtain e2 where
    e2: "h2 = h1 @ e2" "\<forall>w \<in> set ws. val_above (length h1) w"
      "\<forall>ob \<in> set e2. \<forall>w \<in> set (vals_of ob). val_above (length h1) w"
    by blast
  have le: "length h \<le> length h1" using e1(1) by simp
  have e2': "\<forall>w \<in> set ws. val_above (length h) w"
    "\<forall>ob \<in> set e2. \<forall>w \<in> set (vals_of ob). val_above (length h) w"
    using e2(2,3) le by (blast intro: val_above_mono)+
  have "h' = h @ (e1 @ e2)" "vs = w # ws"
    using "9.prems" l1 l2 e1(1) e2(1) by auto
  then show ?case
    using e1(2,3) e2' by (intro exI [of _ "e1 @ e2"]) auto
next
  case (11 h kv kts)
  obtain h1 w where l1: "loads h (snd kv) = (h1, w)" by (cases "loads h (snd kv)")
  obtain h2 kws where l2: "loads_items h1 kts = (h2, kws)" by (cases "loads_items h1 kts")
  from "11.IH"(1) [OF l1] obtain e1 where
    e1: "h1 = h @ e1" "val_above (length h) w"
      "\<forall>ob \<in> set e1. \<forall>w \<in> set (vals_of ob). val_above (length h) w"
    by blast
  from "11.IH"(2) [OF l1 [symmetric] l2] obtain e2 where
    e2: "h2 = h1 @ e2" "\<forall>w \<in> set (map snd kws). val_above (length h1) w"
      "\<forall>ob \<in> set e2. \<forall>w \<in> set (vals_of ob). val_above (length h1) w"
    by blast
  have le: "length h \<le> length h1" using e1(1) by simp
  have e2': "\<forall>w \<in> set (map snd kws). val_above (length h) w"
    "\<forall>ob \<in> set e2. \<forall>w \<in> set (vals_of ob). val_above (length h) w"
    using e2(2,3) le by (blast intro: val_above_mono)+
  have "h' = h @ (e1 @ e2)" "kvs = (fst kv, w) # kws"
    using "11.prems" l1 l2 e1(1) e2(1) by auto
  then show ?case
    using e1(2,3) e2' by (intro exI [of _ "e1 @ e2"]) auto
qed auto

text \<open>
  What a piece of the merge keeps when it writes only into objects from address \<open>n\<close>
  on: the objects below, the size of the store, and closedness.
\<close>

lemma setitem_frame:
  assumes "h_setitem h rc key (PFloat x) = Inr h'" "val_above n rc" "closed_above n h"
  shows "take n h' = take n h \<and> length h' = length h \<and> closed_above n h'"
proof -
  from assms(1) obtain a kvs where
    rc: "rc = PRef a" and a: "a < length h" and obj: "h ! a = PDict kvs"
    and h': "h' = h[a := PDict (AList.update key (PFloat x) kvs)]"
    by (cases rc) (auto simp: deref_def split: if_splits pyobj.splits)
  have na: "n \<le> a" using assms(2) rc by simp
  have "set (vals_of (PDict (AList.update key (PFloat x) kvs)))
      \<subseteq> insert (PFloat x) (set (vals_of (PDict kvs)))"
    using set_update_subset [of key "PFloat x" kvs] by auto
  then have new: "\<forall>v \<in> set (vals_of (PDict (AList.update key (PFloat x) kvs))). val_above n v"
    using assms(3) a na obj by (fastforce simp: closed_above_def)
  have "closed_above n h'"
    unfolding closed_above_def
  proof (intro allI impI)
    fix b
    assume b: "n \<le> b \<and> b < length h'"
    show "\<forall>v \<in> set (vals_of (h' ! b)). val_above n v"
    proof (cases "b = a")
      case True
      then show ?thesis using new a by (simp add: h')
    next
      case False
      then show ?thesis using assms(3) b by (simp add: h' closed_above_def)
    qed
  qed
  then show ?thesis using na by (simp add: h')
qed

lemma update_field_h_frame:
  assumes "update_field_h table rn rc f h = (out, h', e)" "val_above n rc" "closed_above n h"
  shows "take n h' = take n h \<and> length h' = length h \<and> closed_above n h'"
proof (cases "\<exists>x old. table_value table f rn = Some x \<and> h_contains h f rc = Inr True
    \<and> h_getitem h rc f = Inr old \<and> (\<exists>h2. h_setitem h rc f (PFloat x) = Inr h2)")
  case True
  then obtain x h2 where set: "h_setitem h rc f (PFloat x) = Inr h2"
    and tv: "table_value table f rn = Some x"
    and c: "h_contains h f rc = Inr True" and g: "\<exists>old. h_getitem h rc f = Inr old"
    by blast
  have "h' = h2"
    using assms(1) set tv c g
    by (auto simp: update_field_h_def table_value_def split: option.splits)
  then show ?thesis using setitem_frame [OF set assms(2,3)] by simp
next
  case False
  then have "h' = h"
    using assms(1)
    by (auto simp: update_field_h_def table_value_def split: option.splits sum.splits bool.splits)
  then show ?thesis using assms(3) by simp
qed

lemma update_region_h_frame:
  assumes "val_above n rc"
  shows "update_region_h table rn rc fs h = (out, h', e) \<Longrightarrow> closed_above n h
    \<Longrightarrow> take n h' = take n h \<and> length h' = length h \<and> closed_above n h'"
proof (induction fs arbitrary: h out)
  case Nil
  then show ?case by simp
next
  case (Cons f fs)
  obtain o1 h1 e1 where step: "update_field_h table rn rc f h = (o1, h1, e1)"
    by (cases "update_field_h table rn rc f h")
  note one = update_field_h_frame [OF step assms Cons.prems(2)]
  show ?case
  proof (cases e1)
    case None
    then obtain o2 where rest: "update_region_h table rn rc fs h1 = (o2, h', e)"
      using Cons.prems(1) step by (auto split: prod.splits)
    from Cons.IH [OF rest] one show ?thesis by simp
  next
    case (Some err)
    then have "h' = h1" using Cons.prems(1) step by simp
    then show ?thesis using one by simp
  qed
qed

lemma update_regions_h_frame:
  assumes "n \<le> view"
  shows "update_regions_h table fs view len is h = (out, h', e) \<Longrightarrow> closed_above n h
    \<Longrightarrow> take n h' = take n h \<and> length h' = length h \<and> closed_above n h'"
proof (induction "is" arbitrary: h out)
  case Nil
  then show ?case by simp
next
  case (Cons i rest)
  show ?case
  proof (cases "\<exists>kvs. deref h view = Some (PDict kvs) \<and> length kvs = len \<and> i < len")
    case True
    then obtain kvs where d: "deref h view = Some (PDict kvs)" and len: "length kvs = len" "i < len"
      by blast
    obtain rn rc where entry: "kvs ! i = (rn, rc)" by (cases "kvs ! i")
    have v: "view < length h" "h ! view = PDict kvs"
      using d by (auto simp: deref_def split: if_splits)
    have "rc \<in> set (vals_of (h ! view))"
      using v(2) len entry by (metis nth_mem snd_conv vals_of.simps(2) image_eqI set_map)
    then have above: "val_above n rc"
      using Cons.prems(2) assms v(1) by (auto simp: closed_above_def)
    obtain o1 h1 e1 where one: "update_region_h table rn rc fs h = (o1, h1, e1)"
      by (cases "update_region_h table rn rc fs h")
    note f1 = update_region_h_frame [OF above one Cons.prems(2)]
    show ?thesis
    proof (cases e1)
      case None
      then obtain o2 where rest: "update_regions_h table fs view len rest h1 = (o2, h', e)"
        using Cons.prems(1) d len entry one by (auto split: prod.splits)
      from Cons.IH [OF rest] f1 show ?thesis by simp
    next
      case (Some err)
      then have "h' = h1" using Cons.prems(1) d len entry one by auto
      then show ?thesis using f1 by simp
    qed
  next
    case False
    then have "h' = h"
      using Cons.prems(1)
      by (auto split: option.splits pyobj.splits if_splits)
    then show ?thesis using Cons.prems(2) by simp
  qed
qed

lemma all_results_Inr:
  "all_results rs = Inr vs \<Longrightarrow> r \<in> set rs \<Longrightarrow> \<exists>v. r = Inr v"
  by (induction rs arbitrary: vs rule: all_results.induct) (auto split: sum.splits)

text \<open>A text the serialiser produces depends on existing objects only.\<close>

lemma dumps_extend:
  "dumps h markers v = Inr t \<Longrightarrow> take (length h) h' = h \<Longrightarrow> dumps h' markers v = Inr t"
proof (induction h markers v arbitrary: t rule: dumps.induct)
  case (6 h markers a)
  from "6.prems"(1) have a: "a \<notin> set markers" "a < length h"
    by (auto split: if_splits)
  have same: "h' ! a = h ! a" and a': "a < length h'"
    using "6.prems"(2) a(2) by (metis nth_take, metis length_take min_less_iff_conj)
  show ?case
  proof (cases "h ! a")
    case (PList vs)
    from "6.prems"(1) a PList obtain xs where
      xs: "all_results (map (dumps h (a # markers)) vs) = Inr xs" and t: "t = JArr xs"
      by (auto split: sum.splits)
    have "dumps h' (a # markers) w = dumps h (a # markers) w" if "w \<in> set vs" for w
    proof -
      from all_results_Inr [OF xs, of "dumps h (a # markers) w"] that
      obtain y where "dumps h (a # markers) w = Inr y" by auto
      with "6.IH"(1) [of vs w y] a PList that "6.prems"(2) show ?thesis by simp
    qed
    then have meq: "map (dumps h' (a # markers)) vs = map (dumps h (a # markers)) vs"
      by simp
    show ?thesis using a a' same PList xs t by (simp add: meq)
  next
    case (PDict kvs)
    from "6.prems"(1) a PDict obtain xs where
      xs: "all_results (map (\<lambda>kv. dumps h (a # markers) (snd kv)) kvs) = Inr xs"
      and t: "t = JObj (zip (map fst kvs) xs)"
      by (auto split: sum.splits)
    have "dumps h' (a # markers) (snd kv) = dumps h (a # markers) (snd kv)"
      if "kv \<in> set kvs" for kv
    proof -
      from all_results_Inr [OF xs, of "dumps h (a # markers) (snd kv)"] that
      obtain y where "dumps h (a # markers) (snd kv) = Inr y" by auto
      with "6.IH"(2) [of kvs kv y] a PDict that "6.prems"(2) show ?thesis by simp
    qed
    then have meq: "map (\<lambda>kv. dumps h' (a # markers) (snd kv)) kvs
        = map (\<lambda>kv. dumps h (a # markers) (snd kv)) kvs"
      by simp
    show ?thesis using a a' same PDict xs t by (simp add: meq)
  qed
qed simp_all

text \<open>
  The merge appends the copy and writes into appended objects only, whether it returns or
  raises.
\<close>

lemma store_frame:
  assumes "update_config_with_calibration_h h config table selector = (h', out, result)"
  shows "take (length h) h' = h
       \<and> dumps h' [] config = dumps h [] config
       \<and> closed_above (length h) h'
       \<and> (\<forall>updated_config. result = Inr updated_config \<longrightarrow> val_above (length h) updated_config)"
proof (cases "dumps h [] config")
  case (Inl e)
  then have "h' = h" "result = Inl e"
    using assms by (simp_all add: update_config_with_calibration_h_def)
  then show ?thesis by (auto simp: closed_above_def)
next
  case (Inr doc)
  obtain h1 c where copy: "loads h doc = (h1, c)" by (cases "loads h doc")
  from loads_appends(1) [OF copy] obtain ext where
    ext: "h1 = h @ ext" "val_above (length h) c"
      "\<forall>ob \<in> set ext. \<forall>w \<in> set (vals_of ob). val_above (length h) w"
    by blast
  have closed: "closed_above (length h) h1"
    unfolding closed_above_def
  proof (intro allI impI)
    fix a
    assume "length h \<le> a \<and> a < length h1"
    then have "a - length h < length ext" "h1 ! a = ext ! (a - length h)"
      by (auto simp: ext(1) nth_append)
    then have "h1 ! a \<in> set ext"
      by simp
    then show "\<forall>v \<in> set (vals_of (h1 ! a)). val_above (length h) v"
      using ext(3) by blast
  qed
  have frame: "take (length h) h' = take (length h) h1 \<and> closed_above (length h) h'
      \<and> (\<forall>v. result = Inr v \<longrightarrow> v = c)"
  proof (cases "\<exists>regions view len. h_contains h1 ''regions'' c = Inr True
      \<and> h_getitem h1 c ''regions'' = Inr regions \<and> h_items h1 regions = Inr (view, len)")
    case True
    then obtain regions view len where
      c1: "h_contains h1 ''regions'' c = Inr True" and
      c2: "h_getitem h1 c ''regions'' = Inr regions" and
      c3: "h_items h1 regions = Inr (view, len)"
      by blast
    obtain o2 h2 e2 where loop: "update_regions_h table selector view len [0..<len] h1 = (o2, h2, e2)"
      by (cases "update_regions_h table selector view len [0..<len] h1")
    have res: "h' = h2" "\<forall>v. result = Inr v \<longrightarrow> v = c"
      using assms Inr copy c1 c2 c3 loop
      by (auto simp: update_config_with_calibration_h_def split: option.splits)
    from c2 obtain a kvs where c: "c = PRef a" and a: "a < length h1" "h1 ! a = PDict kvs"
      and r: "map_of kvs ''regions'' = Some regions"
      by (cases c) (auto simp: deref_def split: if_splits pyobj.splits option.splits)
    have "length h \<le> a" using ext(2) c by simp
    moreover have "regions \<in> set (vals_of (h1 ! a))"
      using a(2) r by (auto dest: map_of_SomeD intro: rev_image_eqI)
    ultimately have "val_above (length h) regions"
      using closed a(1) by (auto simp: closed_above_def)
    moreover have "regions = PRef view"
      using c3 by (cases regions) (auto split: option.splits pyobj.splits)
    ultimately have "length h \<le> view" by simp
    from update_regions_h_frame [OF this loop closed] res show ?thesis by simp
  next
    case False
    then have "h' = h1" "\<forall>v. result = Inr v \<longrightarrow> v = c"
      using assms Inr copy
      by (auto simp: update_config_with_calibration_h_def
          split: sum.splits bool.splits prod.splits)
    then show ?thesis using closed by simp
  qed
  have prefix: "take (length h) h' = h"
    using frame ext(1) by simp
  have "dumps h' [] config = Inr doc"
    using Inr prefix by (rule dumps_extend)
  then show ?thesis
    using prefix frame ext(2) Inr by auto
qed

section \<open>The store: the copy is the merged document\<close>

lemma tree_mono:
  "tree h A v t \<Longrightarrow> A \<subseteq> A' \<Longrightarrow> tree h A' v t"
  "trees h A vs ts \<Longrightarrow> A \<subseteq> A' \<Longrightarrow> trees h A' vs ts"
  "tree_items h A kvs kts \<Longrightarrow> A \<subseteq> A' \<Longrightarrow> tree_items h A' kvs kts"
proof (induction arbitrary: A' and A' and A' rule: tree_trees_tree_items.inducts)
  case (tree_List a A vs ts)
  have "trees h (A' - {a}) vs ts"
    by (rule tree_List.IH) (use tree_List in auto)
  with tree_List show ?case
    by (intro tree_trees_tree_items.intros(6)) auto
next
  case (tree_Dict a A kvs kts)
  have "tree_items h (A' - {a}) kvs kts"
    by (rule tree_Dict.IH) (use tree_Dict in auto)
  with tree_Dict show ?case
    by (intro tree_trees_tree_items.intros(7)) auto
next
  case (trees_Cons B v t C vs ts A)
  then show ?case by (intro tree_trees_tree_items.intros(9) [of h B v t C]) auto
next
  case (items_Cons B v t C kvs kts A k)
  then show ?case by (intro tree_trees_tree_items.intros(11) [of h B v t C]) auto
qed (auto intro: tree_trees_tree_items.intros)

text \<open>A tree is still one in a store that has the same objects at its addresses.\<close>

lemma tree_frame:
  "tree h A v t \<Longrightarrow> length h \<le> length h' \<Longrightarrow> \<forall>a \<in> A. a < length h \<longrightarrow> h' ! a = h ! a
    \<Longrightarrow> tree h' A v t"
  "trees h A vs ts \<Longrightarrow> length h \<le> length h' \<Longrightarrow> \<forall>a \<in> A. a < length h \<longrightarrow> h' ! a = h ! a
    \<Longrightarrow> trees h' A vs ts"
  "tree_items h A kvs kts \<Longrightarrow> length h \<le> length h'
    \<Longrightarrow> \<forall>a \<in> A. a < length h \<longrightarrow> h' ! a = h ! a
    \<Longrightarrow> tree_items h' A kvs kts"
proof (induction rule: tree_trees_tree_items.inducts)
  case (tree_List a A vs ts)
  have "trees h' (A - {a}) vs ts"
    by (rule tree_List.IH) (use tree_List in auto)
  with tree_List show ?case
    by (intro tree_trees_tree_items.intros(6)) auto
next
  case (tree_Dict a A kvs kts)
  have "tree_items h' (A - {a}) kvs kts"
    by (rule tree_Dict.IH) (use tree_Dict in auto)
  with tree_Dict show ?case
    by (intro tree_trees_tree_items.intros(7)) auto
next
  case (trees_Cons B v t C vs ts A)
  have "tree h' B v t" "trees h' C vs ts"
    by (rule trees_Cons.IH; use trees_Cons in auto)+
  with trees_Cons show ?case
    by (intro tree_trees_tree_items.intros(9) [of h' B v t C]) auto
next
  case (items_Cons B v t C kvs kts A k)
  have "tree h' B v t" "tree_items h' C kvs kts"
    by (rule items_Cons.IH; use items_Cons in auto)+
  with items_Cons show ?case
    by (intro tree_trees_tree_items.intros(11) [of h' B v t C]) auto
qed (auto intro: tree_trees_tree_items.intros)

text \<open>The serialiser reads a tree back as its JSON value.\<close>

lemma tree_dumps:
  "tree h A v t \<Longrightarrow> set markers \<inter> A = {} \<Longrightarrow> dumps h markers v = Inr t"
  "trees h A vs ts \<Longrightarrow> set markers \<inter> A = {}
    \<Longrightarrow> all_results (map (dumps h markers) vs) = Inr ts"
  "tree_items h A kvs kts \<Longrightarrow> set markers \<inter> A = {}
    \<Longrightarrow> all_results (map (\<lambda>kv. dumps h markers (snd kv)) kvs) = Inr (map snd kts)
      \<and> map fst kts = map fst kvs"
proof (induction arbitrary: markers and markers and markers
    rule: tree_trees_tree_items.inducts)
  case (tree_List a A vs ts)
  have "all_results (map (dumps h (a # markers)) vs) = Inr ts"
    by (rule tree_List.IH) (use tree_List in auto)
  with tree_List show ?case by auto
next
  case (tree_Dict a A kvs kts)
  have "all_results (map (\<lambda>kv. dumps h (a # markers) (snd kv)) kvs) = Inr (map snd kts)
      \<and> map fst kts = map fst kvs"
    by (rule tree_Dict.IH) (use tree_Dict in auto)
  moreover have "zip (map fst kts) (map snd kts) = kts"
    by (rule zip_map_fst_snd)
  ultimately show ?case using tree_Dict by auto
next
  case (trees_Cons B v t C vs ts A)
  have "dumps h markers v = Inr t" "all_results (map (dumps h markers) vs) = Inr ts"
    by (rule trees_Cons.IH; use trees_Cons in auto)+
  then show ?case by simp
next
  case (items_Cons B v t C kvs kts A k)
  have "dumps h markers v = Inr t"
    "all_results (map (\<lambda>kv. dumps h markers (snd kv)) kvs) = Inr (map snd kts)
      \<and> map fst kts = map fst kvs"
    by (rule items_Cons.IH; use items_Cons in auto)+
  then show ?case by simp
qed simp_all

text \<open>The parser builds a tree, out of the objects it appends.\<close>

lemma loads_tree:
  "loads h t = (h', v) \<Longrightarrow>
     (\<exists>ext. h' = h @ ext) \<and> tree h' {length h..<length h'} v t"
  "loads_list h ts = (h', vs) \<Longrightarrow>
     (\<exists>ext. h' = h @ ext) \<and> trees h' {length h..<length h'} vs ts"
  "loads_items h kts = (h', kvs) \<Longrightarrow>
     (\<exists>ext. h' = h @ ext) \<and> tree_items h' {length h..<length h'} kvs kts"
proof (induction h t and h ts and h kts arbitrary: h' v and h' vs and h' kvs
    rule: loads_loads_list_loads_items.induct)
  case (6 h xs)
  obtain h1 ws where l: "loads_list h xs = (h1, ws)" by (cases "loads_list h xs")
  from "6.IH" [OF l] obtain ext where
    ext: "h1 = h @ ext" and tr: "trees h1 {length h..<length h1} ws xs"
    by blast
  have res: "h' = h1 @ [PList ws]" "v = PRef (length h1)"
    using "6.prems" l by auto
  have "trees h' {length h..<length h1} ws xs"
    by (rule tree_frame(2) [OF tr]) (auto simp: res nth_append)
  moreover have "{length h..<length h'} - {length h1} = {length h..<length h1}"
    using ext by (auto simp: res)
  ultimately have "tree h' {length h..<length h'} (PRef (length h1)) (JArr xs)"
    using ext by (intro tree_trees_tree_items.intros(6)) (auto simp: res)
  then show ?case using ext res by auto
next
  case (7 h kts)
  obtain h1 kws where l: "loads_items h kts = (h1, kws)" by (cases "loads_items h kts")
  from "7.IH" [OF l] obtain ext where
    ext: "h1 = h @ ext" and tr: "tree_items h1 {length h..<length h1} kws kts"
    by blast
  have res: "h' = h1 @ [PDict kws]" "v = PRef (length h1)"
    using "7.prems" l by auto
  have "tree_items h' {length h..<length h1} kws kts"
    by (rule tree_frame(3) [OF tr]) (auto simp: res nth_append)
  moreover have "{length h..<length h'} - {length h1} = {length h..<length h1}"
    using ext by (auto simp: res)
  ultimately have "tree h' {length h..<length h'} (PRef (length h1)) (JObj kts)"
    using ext by (intro tree_trees_tree_items.intros(7)) (auto simp: res)
  then show ?case using ext res by auto
next
  case (9 h x xs)
  obtain h1 w where l1: "loads h x = (h1, w)" by (cases "loads h x")
  obtain h2 ws where l2: "loads_list h1 xs = (h2, ws)" by (cases "loads_list h1 xs")
  from "9.IH"(1) [OF l1] obtain e1 where
    e1: "h1 = h @ e1" and t1: "tree h1 {length h..<length h1} w x"
    by blast
  from "9.IH"(2) [OF l1 [symmetric] l2] obtain e2 where
    e2: "h2 = h1 @ e2" and t2: "trees h2 {length h1..<length h2} ws xs"
    by blast
  have res: "h' = h2" "vs = w # ws"
    using "9.prems" l1 l2 by auto
  have "tree h2 {length h..<length h1} w x"
    by (rule tree_frame(1) [OF t1]) (auto simp: e2 nth_append)
  then have "trees h2 {length h..<length h2} (w # ws) (x # xs)"
    using t2 e1 e2
    by (intro tree_trees_tree_items.intros(9)
          [of h2 "{length h..<length h1}" w x "{length h1..<length h2}"]) auto
  then show ?case using e1 e2 res by auto
next
  case (11 h kv kts)
  obtain h1 w where l1: "loads h (snd kv) = (h1, w)" by (cases "loads h (snd kv)")
  obtain h2 kws where l2: "loads_items h1 kts = (h2, kws)" by (cases "loads_items h1 kts")
  from "11.IH"(1) [OF l1] obtain e1 where
    e1: "h1 = h @ e1" and t1: "tree h1 {length h..<length h1} w (snd kv)"
    by blast
  from "11.IH"(2) [OF l1 [symmetric] l2] obtain e2 where
    e2: "h2 = h1 @ e2" and t2: "tree_items h2 {length h1..<length h2} kws kts"
    by blast
  have res: "h' = h2" "kvs = (fst kv, w) # kws"
    using "11.prems" l1 l2 by auto
  have "tree h2 {length h..<length h1} w (snd kv)"
    by (rule tree_frame(1) [OF t1]) (auto simp: e2 nth_append)
  then have "tree_items h2 {length h..<length h2} ((fst kv, w) # kws) ((fst kv, snd kv) # kts)"
    using t2 e1 e2
    by (intro tree_trees_tree_items.intros(11)
          [of h2 "{length h..<length h1}" w "snd kv" "{length h1..<length h2}"]) auto
  then show ?case using e1 e2 res by auto
qed (auto intro: tree_trees_tree_items.intros)

inductive_cases trees_NilE: "trees h A [] ts"
inductive_cases trees_ConsE: "trees h A (v # vs) ts"
inductive_cases items_NilE: "tree_items h A [] kts"
inductive_cases items_ConsE: "tree_items h A (kv # kvs) kts"
inductive_cases tree_RefE: "tree h A (PRef a) t"

lemma tree_str: "tree h A v t \<Longrightarrow> (v = PStr s) = (t = JStr s)"
  by (erule tree.cases) auto

lemma trees_str_mem: "trees h A vs ts \<Longrightarrow> (PStr s \<in> set vs) = (JStr s \<in> set ts)"
proof (induction vs arbitrary: ts A)
  case Nil
  then show ?case by (auto elim: trees_NilE)
next
  case (Cons v vs)
  from Cons.prems show ?case
  proof (rule trees_ConsE)
    fix B t C ts'
    assume "ts = t # ts'" "tree h B v t" "trees h C vs ts'"
    then show ?thesis using Cons.IH [of C ts'] tree_str [of h B v t s] by auto
  qed
qed

lemma items_keys: "tree_items h A kvs kts \<Longrightarrow> map fst kts = map fst kvs"
proof (induction kvs arbitrary: kts A)
  case Nil
  then show ?case by (auto elim: items_NilE)
next
  case (Cons kv kvs)
  from Cons.prems show ?case
  proof (rule items_ConsE)
    fix B v t C kts' k
    assume "kv = (k, v)" "kts = (k, t) # kts'" "tree_items h C kvs kts'"
    then show ?thesis using Cons.IH [of C kts'] by simp
  qed
qed

lemma items_lookup:
  "tree_items h A kvs kts \<Longrightarrow>
     (case map_of kvs key of
        None \<Rightarrow> map_of kts key = None
      | Some v \<Rightarrow> (\<exists>t. map_of kts key = Some t \<and> tree h A v t))"
proof (induction kvs arbitrary: kts A)
  case Nil
  then show ?case by (auto elim: items_NilE)
next
  case (Cons kv kvs)
  from Cons.prems show ?case
  proof (rule items_ConsE)
    fix B v t C kts' k
    assume a: "kv = (k, v)" "kts = (k, t) # kts'" "tree h B v t" "tree_items h C kvs kts'"
      "B \<inter> C = {}" "B \<subseteq> A" "C \<subseteq> A"
    show ?thesis
    proof (cases "k = key")
      case True
      have "tree h A v t" using a by (auto intro: tree_mono(1))
      then show ?thesis using True a by simp
    next
      case False
      then show ?thesis
        using Cons.IH [OF a(4)] a by (auto split: option.splits intro: tree_mono(1))
    qed
  qed
qed

lemma tree_contains: "tree h A v t \<Longrightarrow> h_contains h key v = py_contains key t"
proof (erule tree.cases, goal_cases)
  case (6 a A' vs ts)
  then show ?case by (simp add: deref_def trees_str_mem)
next
  case (7 a A' kvs kts)
  have "fst ` set kts = fst ` set kvs"
    using items_keys [of h "A' - {a}" kvs kts] 7 by (metis set_map)
  then show ?case using 7 by (simp add: deref_def)
qed auto

lemma tree_getitem:
  "tree h A v t \<Longrightarrow>
     (case h_getitem h v key of
        Inl e \<Rightarrow> py_getitem t key = Inl e
      | Inr w \<Rightarrow> (\<exists>u. py_getitem t key = Inr u
                    \<and> tree h (A - ref_of v) w u))"
proof (erule tree.cases, goal_cases)
  case (6 a A' vs ts)
  then show ?case by (simp add: deref_def)
next
  case (7 a A' kvs kts)
  from items_lookup [of h "A' - {a}" kvs kts key] 7 show ?case
    by (auto simp: deref_def split: option.splits)
qed auto

lemma items_update:
  "tree_items h A kvs kts \<Longrightarrow>
     tree_items h A (AList.update key (PFloat x) kvs) (AList.update key (JFloat x) kts)"
proof (induction kvs arbitrary: kts A)
  case Nil
  have "tree_items h A ((key, PFloat x) # []) ((key, JFloat x) # [])"
    by (rule tree_trees_tree_items.intros(11) [of h "{}" _ _ "{}"])
       (auto intro: tree_trees_tree_items.intros)
  then show ?case using Nil by (auto elim: items_NilE)
next
  case (Cons kv kvs)
  from Cons.prems show ?case
  proof (rule items_ConsE)
    fix B v t C kts' k
    assume a: "kv = (k, v)" "kts = (k, t) # kts'" "tree h B v t" "tree_items h C kvs kts'"
      "B \<inter> C = {}" "B \<subseteq> A" "C \<subseteq> A"
    show ?thesis
    proof (cases "k = key")
      case True
      have "tree_items h A ((key, PFloat x) # kvs) ((key, JFloat x) # kts')"
        by (rule tree_trees_tree_items.intros(11) [of h "{}" _ _ C])
           (use a in \<open>auto intro: tree_trees_tree_items.intros\<close>)
      then show ?thesis using True a by simp
    next
      case False
      have "tree_items h A ((k, v) # AList.update key (PFloat x) kvs)
          ((k, t) # AList.update key (JFloat x) kts')"
        by (rule tree_trees_tree_items.intros(11) [of h B _ _ C])
           (use a Cons.IH [OF a(4)] in auto)
      then show ?thesis using False a by simp
    qed
  qed
qed

text \<open>
  Writing a number into a dictionary that is the root of a tree: the store changes at the
  dictionary's address only, and the tree is one for the updated JSON dictionary.
\<close>

lemma tree_setitem:
  assumes "tree h A v t"
  shows "(case h_setitem h v key (PFloat x) of
        Inl e \<Rightarrow> py_setitem t key (JFloat x) = Inl e
      | Inr h' \<Rightarrow>
          (\<exists>t'. py_setitem t key (JFloat x) = Inr t' \<and> tree h' A v t')
          \<and> length h' = length h \<and> (\<forall>b. v \<noteq> PRef b \<longrightarrow> h' ! b = h ! b))"
  using assms
proof (rule tree.cases, goal_cases)
  case (6 a A' vs ts)
  then show ?case by (simp add: deref_def)
next
  case (7 a A' kvs kts)
  let ?h' = "h[a := PDict (AList.update key (PFloat x) kvs)]"
  have "tree_items h (A - {a}) (AList.update key (PFloat x) kvs) (AList.update key (JFloat x) kts)"
    using 7 by (auto intro: items_update)
  then have "tree_items ?h' (A - {a}) (AList.update key (PFloat x) kvs)
      (AList.update key (JFloat x) kts)"
    by (rule tree_frame(3)) auto
  then have "tree ?h' A (PRef a) (JObj (AList.update key (JFloat x) kts))"
    using 7 by (intro tree_trees_tree_items.intros(7)) auto
  then show ?case using 7 by (auto simp: deref_def)
qed auto

text \<open>
  One step of the inner loop on a tree does what the step on the JSON value does, and
  writes at the address of the region's configuration only.
\<close>

lemma update_field_h_refines:
  assumes "tree h A rc r"
    and "update_field_h table rn rc f h = (out, h', e)"
    and "update_field table rn r f = (outv, resv)"
  shows "length h' = length h \<and> (\<forall>b. rc \<noteq> PRef b \<longrightarrow> h' ! b = h ! b)
       \<and> list_all2 (rel_message (tree h' (A - ref_of rc)) (=)) out outv
       \<and> (case e of Some err \<Rightarrow> resv = Inl err
           | None \<Rightarrow> (\<exists>r'. resv = Inr r' \<and> tree h' A rc r'))"
proof (cases "table_value table f rn")
  case None
  then have "out = [] \<and> h' = h \<and> e = None" "outv = [] \<and> resv = Inr r"
    using assms(2,3)
    by (auto simp: table_value_def update_field_h_def update_field_def split: option.splits)
  then show ?thesis using assms(1) by simp
next
  case (Some x)
  have hv: "update_field_h table rn rc f h =
      (case h_contains h f rc of
         Inl err \<Rightarrow> ([], h, Some err)
       | Inr False \<Rightarrow> ([WarnFieldNotFound f rn], h, None)
       | Inr True \<Rightarrow>
          (case h_getitem h rc f of
             Inl err \<Rightarrow> ([], h, Some err)
           | Inr old \<Rightarrow>
              (case h_setitem h rc f (PFloat x) of
                 Inl err \<Rightarrow> ([], h, Some err)
               | Inr h2 \<Rightarrow> ([Updated rn f old x], h2, None))))"
    using Some by (auto simp: table_value_def update_field_h_def split: option.splits)
  have pv: "update_field table rn r f =
      (case py_contains f r of
         Inl err \<Rightarrow> ([], Inl err)
       | Inr False \<Rightarrow> ([WarnFieldNotFound f rn], Inr r)
       | Inr True \<Rightarrow>
          (case py_getitem r f of
             Inl err \<Rightarrow> ([], Inl err)
           | Inr old \<Rightarrow>
              (case py_setitem r f (JFloat x) of
                 Inl err \<Rightarrow> ([], Inl err)
               | Inr r' \<Rightarrow> ([Updated rn f old x], Inr r'))))"
    using Some by (auto simp: table_value_def update_field_def split: option.splits)
  have c: "h_contains h f rc = py_contains f r"
    using assms(1) by (rule tree_contains)
  show ?thesis
  proof (cases "py_contains f r")
    case (Inl err)
    then show ?thesis using assms hv pv c by auto
  next
    case (Inr present)
    show ?thesis
    proof (cases present)
      case False
      then show ?thesis using assms hv pv c Inr by auto
    next
      case True
      note g = tree_getitem [OF assms(1), of f]
      show ?thesis
      proof (cases "h_getitem h rc f")
        case (Inl err)
        then show ?thesis using assms hv pv c Inr True g by auto
      next
        case old: (Inr old)
        then obtain oldj where oldj: "py_getitem r f = Inr oldj"
          and told: "tree h (A - ref_of rc) old oldj"
          using g by auto
        note s = tree_setitem [OF assms(1), of f x]
        show ?thesis
        proof (cases "h_setitem h rc f (PFloat x)")
          case (Inl err)
          then show ?thesis using assms hv pv c Inr True old oldj s by auto
        next
          case h2: (Inr h2)
          then obtain r' where r': "py_setitem r f (JFloat x) = Inr r'"
            and t2: "tree h2 A rc r'" and len: "length h2 = length h"
            and fr: "\<forall>b. rc \<noteq> PRef b \<longrightarrow> h2 ! b = h ! b"
            using s by auto
          have "rc \<noteq> PRef a" if "a \<in> A - ref_of rc" for a
            using that by (cases rc) auto
          then have "\<forall>a \<in> A - ref_of rc. a < length h \<longrightarrow> h2 ! a = h ! a"
            using fr by blast
          then have "tree h2 (A - ref_of rc) old oldj"
            using len by (intro tree_frame(1) [OF told]) auto
          moreover have "update_field_h table rn rc f h = ([Updated rn f old x], h2, None)"
            using hv c Inr True old h2 by simp
          then have "out = [Updated rn f old x]" "h' = h2" "e = None"
            using assms(2) by simp_all
          moreover have "update_field table rn r f = ([Updated rn f oldj x], Inr r')"
            using pv Inr True oldj r' by simp
          then have "outv = [Updated rn f oldj x]" "resv = Inr r'"
            using assms(3) by simp_all
          ultimately show ?thesis
            using t2 len fr by simp
        qed
      qed
    qed
  qed
qed

lemma msgs_frame:
  assumes "list_all2 (rel_message (tree h B) (=)) ms mvs" "length h \<le> length h'"
    "\<forall>a \<in> B. a < length h \<longrightarrow> h' ! a = h ! a"
  shows "list_all2 (rel_message (tree h' B) (=)) ms mvs"
proof -
  have "rel_message (tree h' B) (=) m mv" if "rel_message (tree h B) (=) m mv" for m mv
    using that
  proof (rule message.rel_mono_strong)
    fix z y
    assume "tree h B z y"
    then show "tree h' B z y" using assms(2,3) by (rule tree_frame(1))
  qed simp
  with assms(1) show ?thesis by (rule list_all2_mono)
qed

lemma msgs_mono:
  assumes "list_all2 (rel_message (tree h B) (=)) ms mvs" "B \<subseteq> B'"
  shows "list_all2 (rel_message (tree h B') (=)) ms mvs"
proof -
  have "rel_message (tree h B') (=) m mv" if "rel_message (tree h B) (=) m mv" for m mv
    using that
  proof (rule message.rel_mono_strong)
    fix z y
    assume "tree h B z y"
    then show "tree h B' z y" using assms(2) by (rule tree_mono(1))
  qed simp
  with assms(1) show ?thesis by (rule list_all2_mono)
qed

lemma not_ref_of: "a \<in> A - ref_of rc \<Longrightarrow> rc \<noteq> PRef a"
  by (cases rc) auto

lemma update_region_h_refines:
  assumes "tree h A rc r"
    and "update_region_h table rn rc fs h = (out, h', e)"
    and "update_region table rn r fs = (outv, resv)"
  shows "length h' = length h \<and> (\<forall>b. rc \<noteq> PRef b \<longrightarrow> h' ! b = h ! b)
       \<and> list_all2 (rel_message (tree h' (A - ref_of rc)) (=)) out outv
       \<and> (case e of Some err \<Rightarrow> resv = Inl err
           | None \<Rightarrow> (\<exists>r'. resv = Inr r' \<and> tree h' A rc r'))"
  using assms
proof (induction fs arbitrary: h r out outv)
  case Nil
  then show ?case by auto
next
  case (Cons f fs)
  obtain o1 h1 e1 where hstep: "update_field_h table rn rc f h = (o1, h1, e1)"
    by (cases "update_field_h table rn rc f h")
  obtain ov1 rv1 where pstep: "update_field table rn r f = (ov1, rv1)"
    by (cases "update_field table rn r f")
  note one = update_field_h_refines [OF Cons.prems(1) hstep pstep]
  show ?case
  proof (cases e1)
    case (Some err)
    then have "rv1 = Inl err" using one by simp
    then have "out = o1" "h' = h1" "e = Some err" "outv = ov1" "resv = Inl err"
      using Cons.prems(2,3) hstep pstep Some by simp_all
    then show ?thesis using one by simp
  next
    case None
    then obtain r1 where r1: "rv1 = Inr r1" and t1: "tree h1 A rc r1"
      using one by auto
    obtain o2 where hrest: "update_region_h table rn rc fs h1 = (o2, h', e)"
      and out: "out = o1 @ o2"
      using Cons.prems(2) hstep None by (auto split: prod.splits)
    obtain ov2 where prest: "update_region table rn r1 fs = (ov2, resv)"
      and outv: "outv = ov1 @ ov2"
      using Cons.prems(3) pstep r1 by (auto split: prod.splits)
    note two = Cons.IH [OF t1 hrest prest]
    have "list_all2 (rel_message (tree h' (A - ref_of rc)) (=)) o1 ov1"
    proof (rule msgs_frame)
      show "list_all2 (rel_message (tree h1 (A - ref_of rc)) (=)) o1 ov1"
        using one by simp
      show "length h1 \<le> length h'" using two by simp
      show "\<forall>a \<in> A - ref_of rc. a < length h1 \<longrightarrow> h' ! a = h1 ! a"
        using two not_ref_of by blast
    qed
    then have "list_all2 (rel_message (tree h' (A - ref_of rc)) (=)) out outv"
      using two by (simp add: out outv list_all2_appendI)
    then show ?thesis using one two by simp
  qed
qed

lemma tree_ref_in: "tree h B v t \<Longrightarrow> v = PRef b \<Longrightarrow> b \<in> B"
  by (auto elim: tree_RefE)

text \<open>
  The loop over the regions, from position \<open>i\<close> on: the entries still to visit are
  trees in disjoint parts of \<open>C\<close>, and the dictionary that is iterated is outside of
  \<open>C\<close>.
\<close>

lemma update_regions_h_refines:
  assumes "tree_items h C rest krest"
    and "view < length h" "h ! view = PDict kvs" "view \<notin> C" "len = length kvs"
    and "drop i kvs = rest"
    and "update_regions_h table fs view len [i..<len] h = (out, h', e)"
    and "update_regions table fs krest = (outv, resv)"
  shows "length h' = length h \<and> (\<forall>b. b \<notin> C \<longrightarrow> h' ! b = h ! b)
       \<and> list_all2 (rel_message (tree h' C) (=)) out outv
       \<and> (case e of Some err \<Rightarrow> resv = Inl err
           | None \<Rightarrow> (\<exists>krest'. resv = Inr krest' \<and> tree_items h' C rest krest'))"
  using assms
proof (induction rest arbitrary: i h C krest out outv resv)
  case Nil
  then have "len \<le> i" by simp
  then have "out = [] \<and> h' = h \<and> e = None" using Nil.prems(7) by simp
  moreover have "krest = []" using Nil.prems(1) by (auto elim: items_NilE)
  then have "outv = [] \<and> resv = Inr []" using Nil.prems(8) by simp
  ultimately show ?case by (auto intro: tree_trees_tree_items.intros)
next
  case (Cons kv rest')
  have i: "i < len" using Cons.prems(5,6) by (cases "i < length kvs") auto
  have kv: "kvs ! i = kv" and rest': "drop (Suc i) kvs = rest'"
    using Cons.prems(5,6) i by (metis Cons_nth_drop_Suc list.inject)+
  have upt: "[i..<len] = i # [Suc i..<len]" using i by (rule upt_conv_Cons)
  from Cons.prems(1) obtain B v t C' kts' k where
    s: "kv = (k, v)" "krest = (k, t) # kts'" "tree h B v t" "tree_items h C' rest' kts'"
      "B \<inter> C' = {}" "B \<subseteq> C" "C' \<subseteq> C"
    by (rule items_ConsE)
  obtain o1 h1 e1 where hone: "update_region_h table k v fs h = (o1, h1, e1)"
    by (cases "update_region_h table k v fs h")
  obtain ov1 rv1 where pone: "update_region table k t fs = (ov1, rv1)"
    by (cases "update_region table k t fs")
  note one = update_region_h_refines [OF s(3) hone pone]
  have fr1: "h1 ! b = h ! b" if "b \<notin> B" for b
    using one that tree_ref_in [OF s(3)] by blast
  have m1: "list_all2 (rel_message (tree h1 (B - ref_of v)) (=)) o1 ov1"
    using one by simp
  have hloop: "update_regions_h table fs view len [i..<len] h =
      (case e1 of
         Some err \<Rightarrow> (o1, h1, Some err)
       | None \<Rightarrow>
          (case update_regions_h table fs view len [Suc i..<len] h1 of
             (out', r) \<Rightarrow> (o1 @ out', r)))"
    using Cons.prems(2,3,5) i kv s(1) hone
    by (cases e1) (simp_all add: upt_conv_Cons deref_def)
  show ?case
  proof (cases e1)
    case (Some err)
    then have "rv1 = Inl err" using one by simp
    then have "outv = ov1" "resv = Inl err"
      using Cons.prems(8) s(2) pone by simp_all
    moreover have "out = o1" "h' = h1" "e = Some err"
      using Cons.prems(7) hloop Some by simp_all
    moreover have "list_all2 (rel_message (tree h1 C) (=)) o1 ov1"
      using m1 by (rule msgs_mono) (use s(6) in auto)
    ultimately show ?thesis using one fr1 s(6) by auto
  next
    case None
    then obtain r1 where r1: "rv1 = Inr r1" and t1: "tree h1 B v r1"
      using one by auto
    obtain o2 where hrest: "update_regions_h table fs view len [Suc i..<len] h1 = (o2, h', e)"
      and out: "out = o1 @ o2"
      using Cons.prems(7) hloop None by (auto split: prod.splits)
    obtain ov2 rv2 where prest: "update_regions table fs kts' = (ov2, rv2)"
      by (cases "update_regions table fs kts'")
    have pres: "outv = ov1 @ ov2"
      "resv = (case rv2 of Inl err \<Rightarrow> Inl err | Inr rest'' \<Rightarrow> Inr ((k, r1) # rest''))"
      using Cons.prems(8) s(2) pone r1 prest by (auto split: sum.splits)
    have items1: "tree_items h1 C' rest' kts'"
      by (rule tree_frame(3) [OF s(4)]) (use one fr1 s(5) in auto)
    have view1: "view < length h1" "h1 ! view = PDict kvs" "view \<notin> C'"
      using one fr1 [of view] Cons.prems(2,3,4) s(6,7) by auto
    note two = Cons.IH [OF items1 view1 Cons.prems(5) rest' hrest prest]
    have fr2: "h' ! b = h1 ! b" if "b \<notin> C'" for b
      using two that by blast
    have "list_all2 (rel_message (tree h' (B - ref_of v)) (=)) o1 ov1"
      by (rule msgs_frame [OF m1]) (use two fr2 s(5) in auto)
    then have "list_all2 (rel_message (tree h' C) (=)) o1 ov1"
      by (rule msgs_mono) (use s(6) in auto)
    moreover have "list_all2 (rel_message (tree h' C) (=)) o2 ov2"
      by (rule msgs_mono [of h' C']) (use two s(7) in auto)
    ultimately have msgs: "list_all2 (rel_message (tree h' C) (=)) out outv"
      by (simp add: out pres(1) list_all2_appendI)
    have frame: "\<forall>b. b \<notin> C \<longrightarrow> h' ! b = h ! b"
      using fr1 fr2 s(6,7) by (metis subsetD)
    have len: "length h' = length h" using one two by simp
    show ?thesis
    proof (cases e)
      case (Some err)
      then have "rv2 = Inl err" using two by simp
      then show ?thesis using Some msgs frame len pres(2) by simp
    next
      case None
      then obtain rest'' where r2: "rv2 = Inr rest''" and t2: "tree_items h' C' rest' rest''"
        using two by auto
      have "tree h' B v r1"
        by (rule tree_frame(1) [OF t1]) (use two fr2 s(5) in auto)
      then have "tree_items h' C ((k, v) # rest') ((k, r1) # rest'')"
        using t2 s(5,6,7) by (intro tree_trees_tree_items.intros(11) [of h' B _ _ C']) auto
      then show ?thesis using None msgs frame len pres(2) r2 s(1) by simp
    qed
  qed
qed

text \<open>
  The entry of a key in a dictionary of trees occupies a part \<open>B\<close> of its own: when the
  store changes inside \<open>B\<close> only and the entry's value is then a tree for \<open>t'\<close>, the
  dictionary is one for the JSON dictionary with \<open>t'\<close> under the key.
\<close>

lemma items_replace:
  "tree_items h A kvs kts \<Longrightarrow> map_of kvs key = Some v \<Longrightarrow>
     \<exists>B t. B \<subseteq> A \<and> map_of kts key = Some t \<and> tree h B v t
       \<and> (\<forall>h' t'. length h \<le> length h' \<longrightarrow> (\<forall>b. b \<notin> B \<longrightarrow> b < length h \<longrightarrow> h' ! b = h ! b)
             \<longrightarrow> tree h' B v t' \<longrightarrow> tree_items h' A kvs (AList.update key t' kts))"
proof (induction kvs arbitrary: kts A)
  case Nil
  then show ?case by simp
next
  case (Cons kv kvs)
  from Cons.prems(1) obtain B0 v0 t0 C kts' k where
    s: "kv = (k, v0)" "kts = (k, t0) # kts'" "tree h B0 v0 t0" "tree_items h C kvs kts'"
      "B0 \<inter> C = {}" "B0 \<subseteq> A" "C \<subseteq> A"
    by (rule items_ConsE)
  show ?case
  proof (cases "k = key")
    case True
    then have v: "v = v0" using Cons.prems(2) s(1) by simp
    have "tree_items h' A (kv # kvs) (AList.update key t' kts)"
      if "length h \<le> length h'" "\<forall>b. b \<notin> B0 \<longrightarrow> b < length h \<longrightarrow> h' ! b = h ! b"
        "tree h' B0 v t'" for h' t'
    proof -
      have "tree_items h' C kvs kts'"
        by (rule tree_frame(3) [OF s(4)]) (use that s(5) in auto)
      then have "tree_items h' A ((k, v0) # kvs) ((k, t') # kts')"
        using that(3) s(5,6,7) v
        by (intro tree_trees_tree_items.intros(11) [of h' B0 _ _ C]) auto
      then show ?thesis using True s(1,2) by simp
    qed
    then show ?thesis using s True v by (intro exI [of _ B0] exI [of _ t0]) auto
  next
    case False
    then have "map_of kvs key = Some v" using Cons.prems(2) s(1) by simp
    from Cons.IH [OF s(4) this] obtain B t where
      b: "B \<subseteq> C" "map_of kts' key = Some t" "tree h B v t"
      and rep: "\<And>h' t'. length h \<le> length h'
          \<Longrightarrow> \<forall>b. b \<notin> B \<longrightarrow> b < length h \<longrightarrow> h' ! b = h ! b
          \<Longrightarrow> tree h' B v t' \<Longrightarrow> tree_items h' C kvs (AList.update key t' kts')"
      by blast
    have "tree_items h' A (kv # kvs) (AList.update key t' kts)"
      if "length h \<le> length h'" "\<forall>b. b \<notin> B \<longrightarrow> b < length h \<longrightarrow> h' ! b = h ! b"
        "tree h' B v t'" for h' t'
    proof -
      have "tree h' B0 v0 t0"
        by (rule tree_frame(1) [OF s(3)]) (use that b(1) s(5) in auto)
      moreover have "tree_items h' C kvs (AList.update key t' kts')"
        using that by (rule rep)
      ultimately have "tree_items h' A ((k, v0) # kvs) ((k, t0) # AList.update key t' kts')"
        using s(5,6,7) by (intro tree_trees_tree_items.intros(11) [of h' B0 _ _ C]) auto
      then show ?thesis using False s(1,2) by simp
    qed
    then show ?thesis
      using b s(2,7) False by (intro exI [of _ B] exI [of _ t]) auto
  qed
qed

lemma tree_h_items:
  "tree h A v t \<Longrightarrow>
     (case h_items h v of
        Inl err \<Rightarrow> py_items t = Inl err
      | Inr (view, len) \<Rightarrow>
          v = PRef view \<and> view \<in> A \<and> view < length h
          \<and> (\<exists>kvs kts. h ! view = PDict kvs \<and> len = length kvs \<and> t = JObj kts
                \<and> tree_items h (A - {view}) kvs kts))"
  by (erule tree.cases) (auto simp: deref_def)

lemma msgs_dumps:
  assumes "list_all2 (rel_message (tree h C) (=)) ms mvs"
  shows "list_all2 (rel_message (\<lambda>old old_json. dumps h [] old = Inr old_json) (=)) ms mvs"
proof -
  have "rel_message (\<lambda>old old_json. dumps h [] old = Inr old_json) (=) m mv"
    if "rel_message (tree h C) (=) m mv" for m mv
    using that
  proof (rule message.rel_mono_strong)
    fix z y
    assume "tree h C z y"
    then show "dumps h [] z = Inr y" by (rule tree_dumps(1)) simp
  qed simp
  with assms show ?thesis by (rule list_all2_mono)
qed

text \<open>
  The merge on the store computes what the merge on the JSON value computes: it raises the
  same exception or returns a value that serialises to the merged document, and prints
  the same lines.
\<close>

theorem store_merge_is_value_merge:
  assumes ser: "dumps h [] config = Inr doc"
    and hrun: "update_config_with_calibration_h h config table selector = (h', out, result)"
    and prun: "update_config_with_calibration doc table selector = (outv, resv)"
  shows "list_all2 (rel_message (\<lambda>old old_json. dumps h' [] old = Inr old_json) (=)) out outv
       \<and> (case result of
             Inl err \<Rightarrow> resv = Inl err
           | Inr updated_config \<Rightarrow>
               (\<exists>doc'. resv = Inr doc' \<and> dumps h' [] updated_config = Inr doc'))"
proof -
  obtain h1 uc where copy: "loads h doc = (h1, uc)" by (cases "loads h doc")
  let ?N = "{length h..<length h1}"
  have t: "tree h1 ?N uc doc" using loads_tree(1) [OF copy] by simp
  have c: "h_contains h1 ''regions'' uc = py_contains ''regions'' doc"
    using t by (rule tree_contains)
  have hdef: "update_config_with_calibration_h h config table selector =
      (case h_contains h1 ''regions'' uc of
         Inl e \<Rightarrow> (h1, [], Inl e)
       | Inr False \<Rightarrow> (h1, [WarnNoRegions], Inr uc)
       | Inr True \<Rightarrow>
          (case h_getitem h1 uc ''regions'' of
             Inl e \<Rightarrow> (h1, [], Inl e)
           | Inr regions \<Rightarrow>
              (case h_items h1 regions of
                 Inl e \<Rightarrow> (h1, [], Inl e)
               | Inr (view, len) \<Rightarrow>
                  (case update_regions_h table selector view len [0..<len] h1 of
                     (out, h2, Some e) \<Rightarrow> (h2, out, Inl e)
                   | (out, h2, None) \<Rightarrow> (h2, out, Inr uc)))))"
    by (simp add: update_config_with_calibration_h_def ser copy)
  have pdef: "update_config_with_calibration doc table selector =
      (case py_contains ''regions'' doc of
         Inl e \<Rightarrow> ([], Inl e)
       | Inr False \<Rightarrow> ([WarnNoRegions], Inr doc)
       | Inr True \<Rightarrow>
          (case py_getitem doc ''regions'' of
             Inl e \<Rightarrow> ([], Inl e)
           | Inr regions \<Rightarrow>
              (case py_items regions of
                 Inl e \<Rightarrow> ([], Inl e)
               | Inr entries \<Rightarrow>
                  (case update_regions table selector entries of
                     (out, Inl e) \<Rightarrow> (out, Inl e)
                   | (out, Inr entries') \<Rightarrow> (out, Inr (with_regions doc entries'))))))"
    by (simp add: update_config_with_calibration_def deep_copy_id)
  show ?thesis
  proof (cases "py_contains ''regions'' doc")
    case (Inl err)
    then have "out = [] \<and> result = Inl err" "outv = [] \<and> resv = Inl err"
      using hrun prun hdef pdef c by auto
    then show ?thesis by simp
  next
    case (Inr present)
    show ?thesis
    proof (cases present)
      case False
      then have "h' = h1 \<and> out = [WarnNoRegions] \<and> result = Inr uc"
        "outv = [WarnNoRegions] \<and> resv = Inr doc"
        using hrun prun hdef pdef c Inr by auto
      moreover have "dumps h1 [] uc = Inr doc"
        using t by (rule tree_dumps(1)) simp
      ultimately show ?thesis by simp
    next
      case True
      note g = tree_getitem [OF t, of "''regions''"]
      show ?thesis
      proof (cases "h_getitem h1 uc ''regions''")
        case (Inl err)
        then have "py_getitem doc ''regions'' = Inl err" using g by simp
        then have "out = [] \<and> result = Inl err" "outv = [] \<and> resv = Inl err"
          using hrun prun hdef pdef c Inr True Inl by auto
        then show ?thesis by simp
      next
        case regions: (Inr regions)
        then obtain a tkvs where uc: "uc = PRef a" and a: "a < length h1" "h1 ! a = PDict tkvs"
          and lookup: "map_of tkvs ''regions'' = Some regions"
          by (cases uc) (auto simp: deref_def split: if_splits pyobj.splits option.splits)
        have "tree h1 ?N (PRef a) doc" using t by (simp add: uc)
        then obtain top_level where doc: "doc = JObj top_level" and aN: "a \<in> ?N"
          and items: "tree_items h1 (?N - {a}) tkvs top_level"
          using a(2) by (auto elim: tree_RefE)
        from items_replace [OF items lookup] obtain B rdoc where
          B: "B \<subseteq> ?N - {a}" and rdoc: "map_of top_level ''regions'' = Some rdoc"
          and tr: "tree h1 B regions rdoc"
          and rep: "\<And>h2 t'. length h1 \<le> length h2
            \<Longrightarrow> \<forall>b. b \<notin> B \<longrightarrow> b < length h1 \<longrightarrow> h2 ! b = h1 ! b
            \<Longrightarrow> tree h2 B regions t'
            \<Longrightarrow> tree_items h2 (?N - {a}) tkvs (AList.update ''regions'' t' top_level)"
          by blast
        have pget: "py_getitem doc ''regions'' = Inr rdoc"
          using rdoc by (simp add: doc)
        note it = tree_h_items [OF tr]
        show ?thesis
        proof (cases "h_items h1 regions")
          case (Inl err)
          then have "py_items rdoc = Inl err" using it by simp
          then have "out = [] \<and> result = Inl err" "outv = [] \<and> resv = Inl err"
            using hrun prun hdef pdef c Inr True regions pget Inl by auto
          then show ?thesis by simp
        next
          case view: (Inr p)
          obtain view len where p: "p = (view, len)" by (cases p)
          from it view p obtain kvs entries where
            v: "regions = PRef view" "view \<in> B" "view < length h1" "h1 ! view = PDict kvs"
              "len = length kvs" "rdoc = JObj entries"
              "tree_items h1 (B - {view}) kvs entries"
            by auto
          obtain o2 h2 e2 where
            hloop: "update_regions_h table selector view len [0..<len] h1 = (o2, h2, e2)"
            by (cases "update_regions_h table selector view len [0..<len] h1")
          obtain ov2 rv2 where ploop: "update_regions table selector entries = (ov2, rv2)"
            by (cases "update_regions table selector entries")
          have "view \<notin> B - {view}" "drop 0 kvs = kvs" by simp_all
          note loop = update_regions_h_refines
            [OF v(7) v(3) v(4) this(1) v(5) this(2) hloop ploop]
          have hres: "h' = h2" "out = o2"
            "result = (case e2 of Some err \<Rightarrow> Inl err | None \<Rightarrow> Inr uc)"
            using hrun hdef c Inr True regions view p hloop by (auto split: option.splits)
          have pres: "outv = ov2"
            "resv = (case rv2 of Inl err \<Rightarrow> Inl err
                     | Inr entries' \<Rightarrow> Inr (with_regions doc entries'))"
            using prun pdef Inr True pget v(6) ploop by (auto split: sum.splits)
          have msgs: "list_all2 (rel_message (\<lambda>old old_json. dumps h' [] old = Inr old_json) (=))
              out outv"
            using loop hres(1,2) pres(1) by (auto intro: msgs_dumps)
          show ?thesis
          proof (cases e2)
            case (Some err)
            then have "rv2 = Inl err" using loop by simp
            then show ?thesis using msgs hres(3) pres(2) Some by simp
          next
            case None
            then obtain entries' where rv2: "rv2 = Inr entries'"
              and te: "tree_items h2 (B - {view}) kvs entries'"
              using loop by auto
            have same: "h2 ! b = h1 ! b" if "b \<notin> B" for b
              using loop that by auto
            have len2: "length h2 = length h1" using loop by simp
            have "h2 ! view = PDict kvs" using loop v(4) by simp
            then have "tree h2 B (PRef view) (JObj entries')"
              using te v(2,3) len2 by (intro tree_trees_tree_items.intros(7)) auto
            then have "tree_items h2 (?N - {a}) tkvs
                (AList.update ''regions'' (JObj entries') top_level)"
              using same len2 v(1) by (intro rep) auto
            moreover have "h2 ! a = PDict tkvs" using same [of a] B a(2) by auto
            ultimately have "tree h2 ?N (PRef a)
                (JObj (AList.update ''regions'' (JObj entries') top_level))"
              using aN a(1) len2 by (intro tree_trees_tree_items.intros(7)) auto
            then have "dumps h2 [] uc
                = Inr (JObj (AList.update ''regions'' (JObj entries') top_level))"
              unfolding uc by (rule tree_dumps(1)) simp
            then show ?thesis
              using msgs hres(1,3) pres(2) None rv2 doc by simp
          qed
        qed
      qed
    qed
  qed
qed

section \<open>The original and the copy\<close>

text \<open>
  Claim C2. Whatever the document, the table and the selector, and whether the merge
  returns or raises: every object that existed when the merge was called is afterwards
  what it was, so the caller's document serialises to the same text as before. The value
  returned is a new object (or an immutable value), the new objects refer to new objects
  only, so the result shares no object with the original and every write of the merge went
  into the copy; and the result serialises to the merged document, computed from the
  content of the original.
\<close>

theorem original_is_untouched:
  assumes "update_config_with_calibration_h h config table selector = (h', out, result)"
  shows "take (length h) h' = h
       \<and> dumps h' [] config = dumps h [] config
       \<and> closed_above (length h) h'
       \<and> (\<forall>updated_config. result = Inr updated_config \<longrightarrow>
             val_above (length h) updated_config
             \<and> (\<exists>doc doc'. dumps h [] config = Inr doc
                   \<and> snd (update_config_with_calibration doc table selector) = Inr doc'
                   \<and> dumps h' [] updated_config = Inr doc'))"
proof -
  note frame = store_frame [OF assms]
  have "\<exists>doc doc'. dumps h [] config = Inr doc
      \<and> snd (update_config_with_calibration doc table selector) = Inr doc'
      \<and> dumps h' [] updated_config = Inr doc'"
    if res: "result = Inr updated_config" for updated_config
  proof (cases "dumps h [] config")
    case (Inl err)
    then have "result = Inl err"
      using assms by (simp add: update_config_with_calibration_h_def)
    then show ?thesis using res by simp
  next
    case (Inr doc)
    obtain outv resv where prun: "update_config_with_calibration doc table selector = (outv, resv)"
      by (cases "update_config_with_calibration doc table selector")
    from store_merge_is_value_merge [OF Inr assms prun] res
    obtain doc' where "resv = Inr doc'" "dumps h' [] updated_config = Inr doc'"
      by auto
    then show ?thesis using Inr prun by simp
  qed
  then show ?thesis using frame by blast
qed

theorem original_is_untouched_witness:
  "update_config_with_calibration_h
     [PDict [(''full_fill_percent'', PInt 10)], PDict [(''A'', PRef 0)], PDict [(''regions'', PRef 1)]]
     (PRef 2) [''full_fill_percent'' \<mapsto> [''A'' \<mapsto> (55::int)]] [''full_fill_percent'']
   = ([PDict [(''full_fill_percent'', PInt 10)], PDict [(''A'', PRef 0)], PDict [(''regions'', PRef 1)],
       PDict [(''full_fill_percent'', PFloat 55)], PDict [(''A'', PRef 3)], PDict [(''regions'', PRef 4)]],
      [Updated ''A'' ''full_fill_percent'' (PInt 10) 55], Inr (PRef 5))
   \<and> take 3
       [PDict [(''full_fill_percent'', PInt 10)], PDict [(''A'', PRef 0)], PDict [(''regions'', PRef 1)],
        PDict [(''full_fill_percent'', PFloat (55::int))], PDict [(''A'', PRef 3)], PDict [(''regions'', PRef 4)]]
     = [PDict [(''full_fill_percent'', PInt 10)], PDict [(''A'', PRef 0)], PDict [(''regions'', PRef 1)]]
   \<and> dumps
       [PDict [(''full_fill_percent'', PInt 10)], PDict [(''A'', PRef 0)], PDict [(''regions'', PRef 1)],
        PDict [(''full_fill_percent'', PFloat (55::int))], PDict [(''A'', PRef 3)], PDict [(''regions'', PRef 4)]]
       [] (PRef 2)
     = Inr (JObj [(''regions'', JObj [(''A'', JObj [(''full_fill_percent'', JInt 10)])])])
   \<and> val_above 3 (PRef 5 :: int pyval)
   \<and> closed_above 3
       [PDict [(''full_fill_percent'', PInt 10)], PDict [(''A'', PRef 0)], PDict [(''regions'', PRef 1)],
        PDict [(''full_fill_percent'', PFloat (55::int))], PDict [(''A'', PRef 3)], PDict [(''regions'', PRef 4)]]
   \<and> dumps
       [PDict [(''full_fill_percent'', PInt 10)], PDict [(''A'', PRef 0)], PDict [(''regions'', PRef 1)],
        PDict [(''full_fill_percent'', PFloat (55::int))], PDict [(''A'', PRef 3)], PDict [(''regions'', PRef 4)]]
       [] (PRef 5)
     = Inr (JObj [(''regions'', JObj [(''A'', JObj [(''full_fill_percent'', JFloat 55)])])])"
proof -
  let ?h = "[PDict [(''full_fill_percent'', PInt 10)], PDict [(''A'', PRef 0)],
      PDict [(''regions'', PRef 1 :: int pyval)]]"
  let ?h' = "[PDict [(''full_fill_percent'', PInt 10)], PDict [(''A'', PRef 0)],
      PDict [(''regions'', PRef 1)],
      PDict [(''full_fill_percent'', PFloat (55::int))], PDict [(''A'', PRef 3)],
      PDict [(''regions'', PRef 4)]]"
  let ?doc = "JObj [(''regions'', JObj [(''A'', JObj [(''full_fill_percent'', JInt 10 :: int json)])])]"
  let ?doc' = "JObj [(''regions'', JObj [(''A'', JObj [(''full_fill_percent'', JFloat (55::int))])])]"
  let ?table = "[''full_fill_percent'' \<mapsto> [''A'' \<mapsto> (55::int)]]"
  have run: "update_config_with_calibration_h ?h (PRef 2) ?table [''full_fill_percent'']
      = (?h', [Updated ''A'' ''full_fill_percent'' (PInt 10) 55], Inr (PRef 5))"
    by code_simp
  have len: "length ?h = 3" by simp
  have ser: "dumps ?h [] (PRef 2) = Inr ?doc" by code_simp
  have merged: "snd (update_config_with_calibration ?doc ?table [''full_fill_percent'']) = Inr ?doc'"
    by (simp add: update_config_with_calibration_def update_field_def)
  note claim = original_is_untouched [OF run, unfolded len]
  from claim have kept: "take 3 ?h' = ?h" and same: "dumps ?h' [] (PRef 2) = dumps ?h [] (PRef 2)"
    and closed: "closed_above 3 ?h'"
    by blast+
  from claim have new: "val_above 3 (PRef 5 :: int pyval)"
    and "\<exists>doc doc'. dumps ?h [] (PRef 2) = Inr doc
        \<and> snd (update_config_with_calibration doc ?table [''full_fill_percent'']) = Inr doc'
        \<and> dumps ?h' [] (PRef 5) = Inr doc'"
    by blast+
  then have copy: "dumps ?h' [] (PRef 5) = Inr ?doc'"
    using ser merged by auto
  from run kept same ser new closed copy show ?thesis by simp
qed

end
